theory Spec2Isabelle
  imports Main "HOL-Library.AList"
begin

section \<open>Strings\<close>

text \<open>
  \<^verbatim>\<open>url.split('/')[2]\<close> is how the program names the host of a URL in its messages.
  \<open>split_on\<close> is Python's \<^verbatim>\<open>str.split(sep)\<close> for a one-character separator; indexing
  the result at 2 raises IndexError when the URL has fewer than three parts, which
  \<open>url_host\<close> reports as \<open>None\<close>.
\<close>

fun split_on :: "char \<Rightarrow> string \<Rightarrow> string list" where
  "split_on c [] = [[]]"
| "split_on c (x # xs) =
     (if x = c then [] # split_on c xs
      else (case split_on c xs of p # ps \<Rightarrow> (x # p) # ps | [] \<Rightarrow> [[x]]))"

definition url_host :: "string \<Rightarrow> string option" where
  "url_host u = (let ps = split_on CHR ''/'' u in if 2 < length ps then Some (ps ! 2) else None)"

text \<open>Decimal rendering of the numbers that f-strings interpolate.\<close>

fun show_nat :: "nat \<Rightarrow> string" where
  "show_nat n =
     (if n < 10 then [''0123456789'' ! n]
      else show_nat (n div 10) @ [''0123456789'' ! (n mod 10)])"


section \<open>The download worker (class DownloadWorker)\<close>

subsection \<open>Data\<close>

text \<open>
  The worker's fields. \<open>filepath\<close> is \<^verbatim>\<open>str(self.filepath)\<close> and \<open>name\<close> is
  \<^verbatim>\<open>self.filepath.name\<close>; the field \<^verbatim>\<open>timeout\<close> is stored by the constructor and never read.
  The flag \<^verbatim>\<open>is_cancelled\<close> is written by another thread and lives in the environment below.
\<close>

record worker =
  url :: string
  filepath :: string
  name :: string
  fallback_urls :: "string list"
  retry_count :: int

text \<open>
  A file on disk: how many bytes it holds, and whether a transfer wrote all of it.
\<close>

record disk_file =
  nbytes :: nat
  complete :: bool

text \<open>
  What the worker emits and does, in order. \<open>Progress\<close> and \<open>Finished\<close> are the two Qt
  signals with their arguments. \<open>Attempt\<close> (one iteration of the attempt loop got past its
  cancellation check), \<open>Caught\<close> (the handler of line 297 bound \<^verbatim>\<open>error_msg = str(e)\<close>) and
  \<open>Slept\<close> (one \<^verbatim>\<open>time.sleep(0.1)\<close>, in milliseconds) are recorded so that the order of
  attempts and sleeps can be read off a run.
\<close>

datatype event =
    Progress string string int
  | Finished bool string string
  | Attempt string nat
  | Caught string
  | Slept nat

text \<open>
  The state one worker threads through its run: the number of times it has read the
  cancellation flag, the number of attempts it has begun, the clock in milliseconds, the
  file at the destination path, the temporary files that exist (keyed by the attempt that
  created them: \<^verbatim>\<open>mkstemp\<close> never returns an existing name), the events so far and the
  warnings printed to standard output.
\<close>

record wstate =
  checks :: nat
  begun :: nat
  now :: nat
  dest :: "disk_file option"
  temps :: "(nat \<times> disk_file) list"
  log :: "event list"
  warnings :: "string list"

definition init_state :: wstate where
  "init_state = \<lparr>checks = 0, begun = 0, now = 0, dest = None, temps = [], log = [], warnings = []\<rparr>"

text \<open>
  What the world answers during one attempt. Each \<open>_err\<close> field is \<open>None\<close> when the call
  returns and \<open>Some msg\<close> when it raises an exception whose \<^verbatim>\<open>str\<close> is \<open>msg\<close>:
  \<^verbatim>\<open>mkdir\<close> (line 204), \<^verbatim>\<open>os.chmod\<close> of the directory (211), \<^verbatim>\<open>Request\<close> (224),
  \<^verbatim>\<open>mkstemp\<close> (241), the second \<^verbatim>\<open>mkdir\<close> (266), \<^verbatim>\<open>shutil.move\<close> (269), \<^verbatim>\<open>os.chmod\<close> of
  the file (274), \<^verbatim>\<open>os.remove\<close> (256, 289). For \<^verbatim>\<open>urlretrieve\<close> (250): \<open>open_err\<close> is a
  failure before any data, \<open>total_size\<close> the announced length (-1 when unknown),
  \<open>blocks\<close> the sizes of the blocks received, \<open>read_err\<close> a failure after them.
\<close>

record attempt_io =
  mkdir_err :: "string option"
  chmod_dir_err :: "string option"
  request_err :: "string option"
  mkstemp_err :: "string option"
  open_err :: "string option"
  total_size :: int
  blocks :: "nat list"
  read_err :: "string option"
  mkdir2_err :: "string option"
  move_err :: "string option"
  chmod_file_err :: "string option"
  remove_fails :: bool

text \<open>
  The environment of a run. The flag \<^verbatim>\<open>is_cancelled\<close> starts False and is only ever set
  to True, by the controller's thread: \<open>cancel_after = Some k\<close> says that the worker's first
  \<open>k\<close> reads of the flag see False and every later read sees True. \<open>io i\<close> is the world's
  answer during the \<open>i\<close>-th attempt the worker begins (counted from 0 over the whole job).
\<close>

record env =
  cancel_after :: "nat option"
  io :: "nat \<Rightarrow> attempt_io"
  IS_LINUX :: bool
  IS_WINDOWS :: bool

datatype flow = Return bool | Raise string | Fallthrough

subsection \<open>Primitive steps\<close>

definition is_cancelled :: "env \<Rightarrow> wstate \<Rightarrow> bool \<times> wstate" where
  "is_cancelled e s =
     ((case cancel_after e of None \<Rightarrow> False | Some k \<Rightarrow> k \<le> checks s),
      s\<lparr>checks := Suc (checks s)\<rparr>)"

definition emit :: "event \<Rightarrow> wstate \<Rightarrow> wstate" where
  "emit ev s = s\<lparr>log := log s @ [ev]\<rparr>"

definition warn :: "string \<Rightarrow> wstate \<Rightarrow> wstate" where
  "warn m s = s\<lparr>warnings := warnings s @ [m]\<rparr>"

definition sleep :: "nat \<Rightarrow> wstate \<Rightarrow> wstate" where
  "sleep ms s = s\<lparr>now := now s + ms, log := log s @ [Slept ms]\<rparr>"

definition cancelled_msg :: "worker \<Rightarrow> event" where
  "cancelled_msg w = Progress (filepath w) (''Download cancelled: '' @ name w) 0"

text \<open>Lines 254-258 and 287-291: remove the temporary file if it exists, ignoring a failure.\<close>

definition cleanup_temp :: "attempt_io \<Rightarrow> nat \<Rightarrow> wstate \<Rightarrow> wstate" where
  "cleanup_temp a t s =
     (if map_of (temps s) t \<noteq> None
      then (if remove_fails a then s else s\<lparr>temps := AList.delete t (temps s)\<rparr>)
      else s)"

subsection \<open>The transfer (\<^verbatim>\<open>urllib.request.urlretrieve\<close> with the progress hook)\<close>

text \<open>
  Lines 227-238, the hook \<^verbatim>\<open>report_progress(block_num, block_size, total_size)\<close>, called
  with block size 8192. Python computes the percentage through a float division; the
  model uses integer division.
\<close>

definition report_progress ::
  "env \<Rightarrow> worker \<Rightarrow> string \<Rightarrow> int \<Rightarrow> nat \<Rightarrow> wstate \<Rightarrow> (string + unit) \<times> wstate" where
  "report_progress e w u tot block_num s =
     (case is_cancelled e s of (c, s1) \<Rightarrow>
        if c then (Inl ''Download cancelled by user'', s1)
        else if tot > 0 then
          (case url_host u of
             None \<Rightarrow> (Inl ''list index out of range'', s1)
           | Some h \<Rightarrow>
               (Inr (), emit (Progress (filepath w) (''Downloading from '' @ h @ '': '' @ name w)
                                (min (int block_num * 8192 * 100 div tot) 100)) s1))
        else (Inr (), s1))"

definition append_temp :: "nat \<Rightarrow> nat \<Rightarrow> wstate \<Rightarrow> wstate" where
  "append_temp t b s =
     s\<lparr>temps := AList.update t
          \<lparr>nbytes = (case map_of (temps s) t of None \<Rightarrow> 0 | Some f \<Rightarrow> nbytes f) + b,
           complete = False\<rparr> (temps s)\<rparr>"

text \<open>
  The library function, as the worker uses it: it opens the URL and truncates the target
  file, calls the hook with block number 0, then writes each received block and calls the
  hook again, and returns once the stream has ended. An exception of the hook leaves the
  function, with the bytes written so far in the target file.
\<close>

fun receive ::
  "env \<Rightarrow> worker \<Rightarrow> string \<Rightarrow> int \<Rightarrow> nat \<Rightarrow> nat list \<Rightarrow> nat \<Rightarrow> wstate \<Rightarrow> (string + unit) \<times> wstate" where
  "receive e w u tot t [] n s = (Inr (), s)"
| "receive e w u tot t (b # bs) n s =
     (case report_progress e w u tot (Suc n) (append_temp t b s) of
        (Inl x, s1) \<Rightarrow> (Inl x, s1)
      | (Inr _, s1) \<Rightarrow> receive e w u tot t bs (Suc n) s1)"

definition mark_complete :: "nat \<Rightarrow> wstate \<Rightarrow> wstate" where
  "mark_complete t s =
     s\<lparr>temps := AList.update t
          \<lparr>nbytes = (case map_of (temps s) t of None \<Rightarrow> 0 | Some f \<Rightarrow> nbytes f),
           complete = True\<rparr> (temps s)\<rparr>"

definition urlretrieve ::
  "env \<Rightarrow> worker \<Rightarrow> string \<Rightarrow> attempt_io \<Rightarrow> nat \<Rightarrow> wstate \<Rightarrow> (string + unit) \<times> wstate" where
  "urlretrieve e w u a t s =
     (case open_err a of
        Some x \<Rightarrow> (Inl x, s)
      | None \<Rightarrow>
          (case report_progress e w u (total_size a) 0
                  (s\<lparr>temps := AList.update t \<lparr>nbytes = 0, complete = False\<rparr> (temps s)\<rparr>) of
             (Inl x, s1) \<Rightarrow> (Inl x, s1)
           | (Inr _, s1) \<Rightarrow>
               (case receive e w u (total_size a) t (blocks a) 0 s1 of
                  (Inl x, s2) \<Rightarrow> (Inl x, s2)
                | (Inr _, s2) \<Rightarrow>
                    (case read_err a of
                       Some x \<Rightarrow> (Inl x, s2)
                     | None \<Rightarrow> (Inr (), mark_complete t s2)))))"

subsection \<open>One attempt (one iteration of the loop of \<^verbatim>\<open>_try_download\<close>)\<close>

text \<open>
  Lines 203-242: create the parent directory, set its permissions on Linux (a failure is
  printed and ignored), build the request, create the temporary file. \<open>Inr t\<close> names the
  temporary file; \<open>Inl x\<close> is an exception on its way to the handler of line 297.
\<close>

definition prepare :: "env \<Rightarrow> worker \<Rightarrow> attempt_io \<Rightarrow> nat \<Rightarrow> wstate \<Rightarrow> (string + nat) \<times> wstate" where
  "prepare e w a t s =
     (case mkdir_err a of
        Some x \<Rightarrow> (Inl x, emit (Progress (filepath w) (''Error creating directories: '' @ x) 0) s)
      | None \<Rightarrow>
          (let s1 = (if IS_LINUX e
                     then (case chmod_dir_err a of
                             Some x \<Rightarrow> warn (''Warning: Failed to set directory permissions: '' @ x) s
                           | None \<Rightarrow> s)
                     else s)
           in case request_err a of
                Some x \<Rightarrow> (Inl x, s1)
              | None \<Rightarrow>
                  (case mkstemp_err a of
                     Some x \<Rightarrow> (Inl x, s1)
                   | None \<Rightarrow>
                       (Inr t, s1\<lparr>temps := AList.update t \<lparr>nbytes = 0, complete = False\<rparr>
                                                (temps s1)\<rparr>))))"

text \<open>
  Lines 261-283, reached when the transfer has returned and the flag was still False:
  verify the size, make sure the directory exists, move the temporary file onto the
  destination, set the permissions unless on Windows (a failure is printed and ignored),
  and emit the signals unless cancelled. \<^verbatim>\<open>shutil.move\<close> is taken as one step that either
  puts the file under the destination name or raises and changes nothing.
\<close>

definition finish_download :: "env \<Rightarrow> worker \<Rightarrow> attempt_io \<Rightarrow> nat \<Rightarrow> wstate \<Rightarrow> flow \<times> wstate" where
  "finish_download e w a t s =
     (case map_of (temps s) t of
        None \<Rightarrow> (Raise ''No such file or directory'', s)
      | Some f \<Rightarrow>
          if nbytes f = 0 then (Raise ''Downloaded file is empty'', s)
          else
            (case mkdir2_err a of
               Some x \<Rightarrow> (Raise x, s)
             | None \<Rightarrow>
                 (case move_err a of
                    Some x \<Rightarrow> (Raise x, s)
                  | None \<Rightarrow>
                      (let s1 = s\<lparr>dest := Some f, temps := AList.delete t (temps s)\<rparr>;
                           s2 = (if \<not> IS_WINDOWS e
                                 then (case chmod_file_err a of
                                         Some x \<Rightarrow> warn (''Warning: Failed to set file permissions: '' @ x) s1
                                       | None \<Rightarrow> s1)
                                 else s1)
                       in case is_cancelled e s2 of (c, s3) \<Rightarrow>
                            (Return True,
                             if \<not> c
                             then emit (Finished True (filepath w) '''')
                                    (emit (Progress (filepath w) (''Completed: '' @ name w) 100) s3)
                             else s3)))))"

text \<open>
  Lines 244-295, the inner \<^verbatim>\<open>try\<close> around the transfer with its handler. The early return
  of line 247 leaves the \<^verbatim>\<open>try\<close> without passing through the handler.
\<close>

definition transfer :: "env \<Rightarrow> worker \<Rightarrow> string \<Rightarrow> attempt_io \<Rightarrow> nat \<Rightarrow> wstate \<Rightarrow> flow \<times> wstate" where
  "transfer e w u a t s =
     (case is_cancelled e s of (c0, s0) \<Rightarrow>
        if c0 then (Return False, s0)
        else
          (case (case urlretrieve e w u a t s0 of
                   (Inl x, s1) \<Rightarrow> (Raise x, s1)
                 | (Inr _, s1) \<Rightarrow>
                     (case is_cancelled e s1 of (c1, s2) \<Rightarrow>
                        if c1 then (Return False, cleanup_temp a t s2)
                        else finish_download e w a t s2)) of
             (Raise x, s3) \<Rightarrow>
               (case is_cancelled e (cleanup_temp a t s3) of (c2, s4) \<Rightarrow>
                  if c2 then (Return False, s4) else (Raise x, s4))
           | r \<Rightarrow> r))"

text \<open>
  Lines 311-317, the backoff: \<^verbatim>\<open>while time.time() - start_time < backoff_time\<close>, check the
  flag, sleep a tenth of a second. The clock is in milliseconds and only sleeping advances it.
\<close>

function backoff :: "env \<Rightarrow> nat \<Rightarrow> nat \<Rightarrow> wstate \<Rightarrow> flow \<times> wstate" where
  "backoff e backoff_time start_time s =
     (if now s - start_time < backoff_time
      then (case is_cancelled e s of (c, s1) \<Rightarrow>
              if c then (Return False, s1)
              else backoff e backoff_time start_time (sleep 100 s1))
      else (Fallthrough, s))"
  by pat_completeness auto
termination
  by (relation "measure (\<lambda>(e, b, st, s). st + b - now s)")
     (auto simp: is_cancelled_def sleep_def)

declare backoff.simps [simp del]

text \<open>Lines 297-323, the handler of a failed attempt number \<open>k\<close> of \<open>mx\<close>.\<close>

definition handle_failure ::
  "env \<Rightarrow> worker \<Rightarrow> string \<Rightarrow> nat \<Rightarrow> nat \<Rightarrow> string \<Rightarrow> wstate \<Rightarrow> flow \<times> wstate" where
  "handle_failure e w u k mx x s =
     (case is_cancelled e (emit (Caught x) s) of (c, s1) \<Rightarrow>
        if c then (Return False, s1)
        else
          (case url_host u of
             None \<Rightarrow> (Raise ''list index out of range'', s1)
           | Some h \<Rightarrow>
               if k < mx
               then (let s2 = emit (Progress (filepath w)
                                       (''Retry '' @ show_nat k @ ''/'' @ show_nat mx @ '' from '' @ h
                                          @ '': '' @ name w) 0) s1
                     in backoff e (1000 * 2 ^ k) (now s2) s2)
               else (Fallthrough,
                     emit (Progress (filepath w) (''Failed from '' @ h @ '': '' @ name w) 0) s1)))"

definition attempt :: "env \<Rightarrow> worker \<Rightarrow> string \<Rightarrow> nat \<Rightarrow> nat \<Rightarrow> wstate \<Rightarrow> flow \<times> wstate" where
  "attempt e w u k mx s =
     (case is_cancelled e s of (c, s0) \<Rightarrow>
        if c then (Return False, s0)
        else
          (let a = io e (begun s0);
               s1 = emit (Attempt u k) (s0\<lparr>begun := Suc (begun s0)\<rparr>)
           in case (case prepare e w a (begun s0) s1 of
                      (Inl x, s2) \<Rightarrow> (Raise x, s2)
                    | (Inr t, s2) \<Rightarrow> transfer e w u a t s2) of
                (Raise x, s3) \<Rightarrow> handle_failure e w u k mx x s3
              | r \<Rightarrow> r))"

subsection \<open>\<^verbatim>\<open>_try_download\<close> and \<^verbatim>\<open>run\<close>\<close>

text \<open>
  \<^verbatim>\<open>for attempt in range(1, max_attempts + 1)\<close>: an attempt that falls through goes to the
  next number; line 325 returns False after the last.
\<close>

fun try_attempts :: "env \<Rightarrow> worker \<Rightarrow> string \<Rightarrow> nat \<Rightarrow> nat list \<Rightarrow> wstate \<Rightarrow> flow \<times> wstate" where
  "try_attempts e w u mx [] s = (Return False, s)"
| "try_attempts e w u mx (k # ks) s =
     (case attempt e w u k mx s of
        (Fallthrough, s1) \<Rightarrow> try_attempts e w u mx ks s1
      | r \<Rightarrow> r)"

definition try_download :: "env \<Rightarrow> worker \<Rightarrow> string \<Rightarrow> int \<Rightarrow> wstate \<Rightarrow> flow \<times> wstate" where
  "try_download e w u max_attempts s =
     try_attempts e w u (nat max_attempts) [1 ..< Suc (nat max_attempts)] s"

text \<open>
  Lines 174-181, the loop over the fallback URLs. \<open>Return\<close> means that \<^verbatim>\<open>run\<close> returns from
  inside the loop, \<open>Fallthrough\<close> that the loop ended.
\<close>

fun try_fallbacks :: "env \<Rightarrow> worker \<Rightarrow> string list \<Rightarrow> wstate \<Rightarrow> flow \<times> wstate" where
  "try_fallbacks e w [] s = (Fallthrough, s)"
| "try_fallbacks e w (f # fs) s =
     (case is_cancelled e s of (c, s0) \<Rightarrow>
        if c then (Return False, emit (cancelled_msg w) s0)
        else
          (case try_download e w f 1 s0 of
             (Return True, s1) \<Rightarrow> (Return True, s1)
           | (Raise x, s1) \<Rightarrow> (Raise x, s1)
           | (_, s1) \<Rightarrow> try_fallbacks e w fs s1))"

text \<open>Lines 152-186, the body of the \<^verbatim>\<open>try\<close> of \<^verbatim>\<open>run\<close>; \<open>Some x\<close> is an exception leaving it.\<close>

definition run_body :: "env \<Rightarrow> worker \<Rightarrow> wstate \<Rightarrow> string option \<times> wstate" where
  "run_body e w s =
     (case is_cancelled e (emit (Progress (filepath w) (''Starting download: '' @ name w) 0) s) of
        (c, s1) \<Rightarrow>
          if c then (None, emit (cancelled_msg w) s1)
          else
            (case try_download e w (url w) (retry_count w) s1 of
               (Raise x, s2) \<Rightarrow> (Some x, s2)
             | (Return True, s2) \<Rightarrow> (None, s2)
             | (_, s2) \<Rightarrow>
                 (case is_cancelled e s2 of (c2, s3) \<Rightarrow>
                    if c2 then (None, emit (cancelled_msg w) s3)
                    else
                      (case (if fallback_urls w \<noteq> []
                             then try_fallbacks e w (fallback_urls w)
                                    (emit (Progress (filepath w)
                                       (''Primary URL failed, trying alternatives for: '' @ name w) 0) s3)
                             else (Fallthrough, s3)) of
                         (Raise x, s4) \<Rightarrow> (Some x, s4)
                       | (Return b, s4) \<Rightarrow> (None, s4)
                       | (Fallthrough, s4) \<Rightarrow>
                           (case is_cancelled e s4 of (c3, s5) \<Rightarrow>
                              if \<not> c3
                              then (None,
                                    emit (Finished False (filepath w) ''All download URLs failed'')
                                      (emit (Progress (filepath w) (''All URLs failed for: '' @ name w) 0) s5))
                              else (None, s5))))))"

text \<open>Lines 148-191: \<^verbatim>\<open>run\<close> with its handler for every exception.\<close>

definition run :: "env \<Rightarrow> worker \<Rightarrow> wstate \<Rightarrow> wstate" where
  "run e w s =
     (case run_body e w s of
        (None, s1) \<Rightarrow> s1
      | (Some x, s1) \<Rightarrow>
          (case is_cancelled e s1 of (c, s2) \<Rightarrow>
             if \<not> c
             then emit (Finished False (filepath w) (''Thread error: '' @ x))
                    (emit (Progress (filepath w) (''Error in download thread: '' @ name w) 0) s2)
             else s2))"

section \<open>Reading a run\<close>

text \<open>The \<^verbatim>\<open>finished\<close> signals of a run, in order.\<close>

fun is_finished :: "event \<Rightarrow> bool" where
  "is_finished (Finished b p m) = True"
| "is_finished _ = False"

definition finished_events :: "wstate \<Rightarrow> event list" where
  "finished_events s = filter is_finished (log s)"

text \<open>
  \<open>cancelled_before e n\<close>: one of the first \<open>n\<close> reads of the flag saw True.
  \<open>seen e s\<close>: one of the reads made up to state \<open>s\<close> saw True.
\<close>

definition cancelled_before :: "env \<Rightarrow> nat \<Rightarrow> bool" where
  "cancelled_before e n = (case cancel_after e of None \<Rightarrow> False | Some c \<Rightarrow> c < n)"

definition seen :: "env \<Rightarrow> wstate \<Rightarrow> bool" where
  "seen e s = cancelled_before e (checks s)"

text \<open>
  The outline of a run: which attempts began, which of them ended in the handler, where a
  success was reported, and every slice slept.
\<close>

datatype mark = Try string nat | Fail | Ok | Nap

fun mark_of :: "event \<Rightarrow> mark list" where
  "mark_of (Attempt u k) = [Try u k]"
| "mark_of (Caught x) = [Fail]"
| "mark_of (Finished b p m) = (if b then [Ok] else [])"
| "mark_of (Slept ms) = [Nap]"
| "mark_of (Progress p m n) = []"

definition outline :: "wstate \<Rightarrow> mark list" where
  "outline s = concat (map mark_of (log s))"

definition naps :: "wstate \<Rightarrow> nat" where
  "naps s = length (filter (\<lambda>ev. case ev of Slept ms \<Rightarrow> True | _ \<Rightarrow> False) (log s))"

text \<open>The outline without the slices slept: the attempts and how each ended.\<close>

definition marks :: "wstate \<Rightarrow> mark list" where
  "marks s = filter (\<lambda>m. m \<noteq> Nap) (outline s)"

text \<open>
  The sequencing as the specification words it, to compare the code with: the ordered
  list of attempts is the primary URL, tried up to \<^verbatim>\<open>maxRetries\<close> times, followed by each
  fallback URL, tried once (\<open>plan\<close>); the attempts are made in that order and stop at the
  first that succeeds (\<open>spec_attempts\<close>, where \<open>ok i\<close> says whether the \<open>i\<close>-th attempt
  made succeeds).
\<close>

fun spec_attempts :: "(nat \<Rightarrow> bool) \<Rightarrow> nat \<Rightarrow> (string \<times> nat) list \<Rightarrow> mark list" where
  "spec_attempts ok i [] = []"
| "spec_attempts ok i ((u, k) # rest) =
     (if ok i then [Try u k, Ok] else Try u k # Fail # spec_attempts ok (Suc i) rest)"

definition plan :: "worker \<Rightarrow> (string \<times> nat) list" where
  "plan w = map (\<lambda>k. (url w, k)) [1 ..< Suc (nat (retry_count w))] @ map (\<lambda>f. (f, 1)) (fallback_urls w)"

text \<open>The last error message bound by the handler of line 297, if any.\<close>

fun last_error :: "event list \<Rightarrow> string option" where
  "last_error [] = None"
| "last_error (ev # evs) =
     (case last_error evs of
        Some x \<Rightarrow> Some x
      | None \<Rightarrow> (case ev of Caught x \<Rightarrow> Some x | _ \<Rightarrow> None))"

text \<open>
  What the world must grant for an attempt to reach line 283: every call on the way
  returns, and the transfer delivers at least one byte. \<open>hook_ok\<close>: the progress hook can
  name the host whenever it has a total size to report against.
\<close>

definition succeeds :: "attempt_io \<Rightarrow> bool" where
  "succeeds a \<longleftrightarrow> mkdir_err a = None \<and> request_err a = None \<and> mkstemp_err a = None \<and>
     open_err a = None \<and> read_err a = None \<and> 0 < sum_list (blocks a) \<and>
     mkdir2_err a = None \<and> move_err a = None"

definition hook_ok :: "string \<Rightarrow> attempt_io \<Rightarrow> bool" where
  "hook_ok u a \<longleftrightarrow> (total_size a \<le> 0 \<or> url_host u \<noteq> None)"

text \<open>The size of temporary file \<open>t\<close>, 0 when it does not exist.\<close>

definition temp_size :: "nat \<Rightarrow> wstate \<Rightarrow> nat" where
  "temp_size t s = (case map_of (temps s) t of None \<Rightarrow> 0 | Some f \<Rightarrow> nbytes f)"

text \<open>
  \<open>silent\<close>: a stretch of the run that emits no \<^verbatim>\<open>finished\<close> signal and leaves the
  destination alone. \<open>good\<close>: a stretch that put a complete, non-empty file at the
  destination and reported success unless the flag had been seen set.
\<close>

definition silent :: "wstate \<Rightarrow> wstate \<Rightarrow> bool" where
  "silent s s' \<longleftrightarrow>
     finished_events s' = finished_events s \<and> dest s' = dest s \<and> checks s \<le> checks s'"

definition good :: "env \<Rightarrow> worker \<Rightarrow> wstate \<Rightarrow> wstate \<Rightarrow> bool" where
  "good e w s s' \<longleftrightarrow> checks s \<le> checks s' \<and>
     (\<exists>f. dest s' = Some f \<and> 0 < nbytes f \<and> complete f) \<and>
     finished_events s' =
       finished_events s @ (if seen e s' then [] else [Finished True (filepath w) ''''])"

text \<open>
  \<open>settled\<close>: how a whole run can end. Either it put the file in place (\<open>good\<close>), or it
  stayed silent and had seen the flag set, or it never saw the flag set and reported one
  failure.
\<close>

definition settled :: "env \<Rightarrow> worker \<Rightarrow> wstate \<Rightarrow> wstate \<Rightarrow> bool" where
  "settled e w s s' \<longleftrightarrow>
     good e w s s' \<or> (silent s s' \<and> seen e s') \<or>
     (\<not> seen e s' \<and> dest s' = dest s \<and> checks s \<le> checks s' \<and>
      (\<exists>m. finished_events s' = finished_events s @ [Finished False (filepath w) m]))"

text \<open>
  The backoff as the specification words it, to compare the code with. \<open>gap\<close>: the
  slices of 100 ms slept after a failed attempt, given the attempts still planned; the
  worker sleeps \<open>2 ^ k\<close> seconds, that is \<open>10 * 2 ^ k\<close> slices, when the next planned
  attempt is attempt \<open>k + 1\<close> against the same URL, and nothing after the final attempt
  for a URL nor between different URLs. \<open>spec_schedule\<close>: the attempts of
  \<open>spec_attempts\<close> with those slices between them.
\<close>

fun gap :: "string \<times> nat \<Rightarrow> (string \<times> nat) list \<Rightarrow> nat" where
  "gap (u, k) [] = 0"
| "gap (u, k) ((u', k') # rest) = (if u' = u \<and> k' = Suc k then 10 * 2 ^ k else 0)"

fun spec_schedule :: "(nat \<Rightarrow> bool) \<Rightarrow> nat \<Rightarrow> (string \<times> nat) list \<Rightarrow> mark list" where
  "spec_schedule ok i [] = []"
| "spec_schedule ok i ((u, k) # rest) =
     (if ok i then [Try u k, Ok]
      else Try u k # Fail # replicate (gap (u, k) rest) Nap @ spec_schedule ok (Suc i) rest)"

text \<open>
  \<open>false_reads e n\<close>: how many of the first \<open>n\<close> reads of the flag see False.
  \<open>paced\<close>: a stretch of the run in which every slice slept and every attempt begun
  comes after a read of its own that saw False, and in which the clock advances by
  100 ms per slice.
\<close>

definition false_reads :: "env \<Rightarrow> nat \<Rightarrow> nat" where
  "false_reads e n = (case cancel_after e of None \<Rightarrow> n | Some c \<Rightarrow> min c n)"

definition paced :: "env \<Rightarrow> wstate \<Rightarrow> wstate \<Rightarrow> bool" where
  "paced e s s' \<longleftrightarrow> checks s \<le> checks s' \<and>
     naps s' + begun s' + false_reads e (checks s) \<le> naps s + begun s + false_reads e (checks s') \<and>
     now s' + 100 * naps s = now s + 100 * naps s'"

text \<open>
  The same world with other answers of \<^verbatim>\<open>os.chmod\<close> on the destination file (line 274),
  attempt by attempt, and another value of \<^verbatim>\<open>IS_WINDOWS\<close>. \<open>erase\<close> forgets what was
  printed to standard output; \<open>agree\<close>: two results are the same up to what was printed,
  and the same altogether unless the result is True.
\<close>

definition chmod_outcome :: "(nat \<Rightarrow> string option) \<Rightarrow> bool \<Rightarrow> env \<Rightarrow> env" where
  "chmod_outcome x win e = e\<lparr>IS_WINDOWS := win, io := (\<lambda>i. (io e i)\<lparr>chmod_file_err := x i\<rparr>)\<rparr>"

definition erase :: "wstate \<Rightarrow> wstate" where
  "erase s = s\<lparr>warnings := []\<rparr>"

definition agree :: "flow \<times> wstate \<Rightarrow> flow \<times> wstate \<Rightarrow> bool" where
  "agree p q \<longleftrightarrow> fst p = fst q \<and> erase (snd p) = erase (snd q) \<and> (fst q \<noteq> Return True \<longrightarrow> snd p = snd q)"

section \<open>Sample runs\<close>

definition ok_io :: attempt_io where
  "ok_io = \<lparr>mkdir_err = None, chmod_dir_err = None, request_err = None, mkstemp_err = None,
     open_err = None, total_size = 5, blocks = [5], read_err = None,
     mkdir2_err = None, move_err = None, chmod_file_err = None, remove_fails = False\<rparr>"

definition not_found_io :: attempt_io where
  "not_found_io = ok_io\<lparr>open_err := Some ''HTTP Error 404: Not Found''\<rparr>"

definition all_ok :: "nat \<Rightarrow> attempt_io" where
  "all_ok i = ok_io"

definition sample_worker :: worker where
  "sample_worker =
     \<lparr>url = ''https://sound-effects.bbcrewind.co.uk/assets/07076051.wav'',
      filepath = ''/home/u/BBCSounds/Birds/Robin.wav'', name = ''Robin.wav'',
      fallback_urls = [''https://sound-effects.bbcrewind.co.uk/07076051.wav'',
                       ''http://bbcsfx.acropolis.org.uk/assets/07076051.wav''],
      retry_count = 3\<rparr>"

definition move_denied :: "nat \<Rightarrow> attempt_io" where
  "move_denied i = ok_io\<lparr>move_err := Some ''[Errno 13] Permission denied''\<rparr>"

definition single_try_worker :: worker where
  "single_try_worker = sample_worker\<lparr>fallback_urls := [], retry_count := 1\<rparr>"

definition always_404 :: "nat \<Rightarrow> attempt_io" where
  "always_404 i = not_found_io"

definition primary_fails_3 :: "nat \<Rightarrow> attempt_io" where
  "primary_fails_3 i = (if i < 3 then not_found_io else ok_io)"

definition chmod_denied :: "nat \<Rightarrow> string option" where
  "chmod_denied i = Some ''[Errno 1] Operation not permitted''"

definition env_of :: "nat option \<Rightarrow> (nat \<Rightarrow> attempt_io) \<Rightarrow> env" where
  "env_of c f = \<lparr>cancel_after = c, io = f, IS_LINUX = True, IS_WINDOWS = False\<rparr>"

section \<open>The controller (class BBCSoundDownloaderGUI)\<close>

text \<open>
  The worker object kept in \<^verbatim>\<open>active_downloads\<close>: its constructor arguments and its
  cancellation flag.
\<close>

record handle =
  h_url :: string
  h_fallback_urls :: "string list"
  h_retry_count :: int
  h_cancelled :: bool

text \<open>
  The controller's state. \<open>samples\<close> is the backlog of \<^verbatim>\<open>(url, filepath, fallback_urls)\<close>,
  \<open>active_downloads\<close> the dictionary from \<^verbatim>\<open>str(filepath)\<close> to the worker, in insertion
  order. \<open>thread_spinbox\<close> and \<open>retry_spinbox\<close> are the values of the two spin boxes.
  \<open>pool_started\<close> lists the workers handed to \<^verbatim>\<open>thread_pool.start\<close>, \<open>completed_calls\<close>
  counts the runs of \<^verbatim>\<open>downloads_completed\<close>, \<open>ui_log\<close> holds the lines of \<^verbatim>\<open>log_message\<close>
  and \<open>error_boxes\<close> the texts of \<^verbatim>\<open>QMessageBox.critical\<close>. Labels, bars and buttons are
  left out.
\<close>

record gui =
  samples :: "(string \<times> string \<times> string list) list"
  total_count :: nat
  finished_count :: nat
  failed_count :: nat
  active_downloads :: "(string \<times> handle) list"
  is_shutting_down :: bool
  thread_spinbox :: int
  retry_spinbox :: int
  pool_max_threads :: int
  pool_started :: "string list"
  completed_calls :: nat
  ui_log :: "string list"
  error_boxes :: "string list"

















definition paths_of :: "(string \<times> string \<times> string list) list \<Rightarrow> string list" where
  "paths_of js = map (\<lambda>j. fst (snd j)) js"





definition same_session :: "gui \<Rightarrow> gui \<Rightarrow> bool" where
  "same_session g g' \<longleftrightarrow>
     finished_count g' = finished_count g \<and> failed_count g' = failed_count g \<and>
     total_count g' = total_count g \<and> is_shutting_down g' = is_shutting_down g \<and>
     thread_spinbox g' = thread_spinbox g \<and> completed_calls g' = completed_calls g \<and>
     error_boxes g' = error_boxes g \<and> pool_max_threads g' = pool_max_threads g"






section \<open>Signals and the destination along a run\<close>

lemma is_cancelled_eq: "is_cancelled e s = (cancelled_before e (Suc (checks s)), s\<lparr>checks := Suc (checks s)\<rparr>)"
  by (auto simp: is_cancelled_def cancelled_before_def split: option.splits) 

lemma cb_mono: "cancelled_before e n \<Longrightarrow> n \<le> m \<Longrightarrow> cancelled_before e m"
  by (auto simp: cancelled_before_def split: option.splits)

lemma fe_simps [simp]:
  "finished_events (s\<lparr>checks := c\<rparr>) = finished_events s"
  "finished_events (s\<lparr>begun := c\<rparr>) = finished_events s"
  "finished_events (s\<lparr>temps := ts\<rparr>) = finished_events s"
  "finished_events (s\<lparr>dest := d\<rparr>) = finished_events s"
  "finished_events (warn m s) = finished_events s"
  "finished_events (sleep n s) = finished_events s"
  "finished_events (cleanup_temp a t s) = finished_events s"
  "finished_events (append_temp t b s) = finished_events s"
  "finished_events (mark_complete t s) = finished_events s"
  "finished_events (emit ev s) = finished_events s @ (if is_finished ev then [ev] else [])"
  by (simp_all add: finished_events_def emit_def warn_def sleep_def cleanup_temp_def append_temp_def mark_complete_def)

lemma prim_simps [simp]:
  "checks (warn m s) = checks s" "dest (warn m s) = dest s"
  "checks (sleep n s) = checks s" "dest (sleep n s) = dest s"
  "checks (cleanup_temp a t s) = checks s" "dest (cleanup_temp a t s) = dest s"
  "checks (append_temp t b s) = checks s" "dest (append_temp t b s) = dest s"
  "checks (mark_complete t s) = checks s" "dest (mark_complete t s) = dest s"
  "checks (emit ev s) = checks s" "dest (emit ev s) = dest s"
  by (simp_all add: emit_def warn_def sleep_def cleanup_temp_def append_temp_def mark_complete_def)

lemma silent_refl [simp]: "silent s s" by (simp add: silent_def)
lemma silent_trans: "silent s s1 \<Longrightarrow> silent s1 s2 \<Longrightarrow> silent s s2" by (simp add: silent_def)

lemma report_progress_silent: "report_progress e w u tot n s = (r, s') \<Longrightarrow> silent s s'"
  by (auto simp: report_progress_def is_cancelled_eq silent_def split: if_splits option.splits) 

lemma receive_silent: "receive e w u tot t bs n s = (r, s') \<Longrightarrow> silent s s'"
proof (induction bs arbitrary: n s)
  case Nil then show ?case by simp
next
  case (Cons b bs)
  obtain r1 s1 where rp: "report_progress e w u tot (Suc n) (append_temp t b s) = (r1, s1)" by force
  have a: "silent s s1" using report_progress_silent[OF rp] by (simp add: silent_def)
  show ?case using Cons.prems rp a Cons.IH[of "Suc n" s1] by (auto split: sum.splits intro: silent_trans)
qed

lemma urlretrieve_silent: 
  assumes "urlretrieve e w u a t s = (r, s')" shows "silent s s'"
proof (cases "open_err a")
  case (Some x) then show ?thesis using assms by (simp add: urlretrieve_def)
next
  case None
  let ?s0 = "s\<lparr>temps := AList.update t \<lparr>nbytes = 0, complete = False\<rparr> (temps s)\<rparr>"
  obtain r1 s1 where rp: "report_progress e w u (total_size a) 0 ?s0 = (r1, s1)" by force
  obtain r2 s2 where rc: "receive e w u (total_size a) t (blocks a) 0 s1 = (r2, s2)" by force
  have "silent s s1" using report_progress_silent[OF rp] by (simp add: silent_def)
  moreover have "silent s1 s2" using receive_silent[OF rc] .
  ultimately show ?thesis using assms None rp rc
    by (auto simp: urlretrieve_def silent_def split: sum.splits option.splits)
qed

lemma urlretrieve_complete:
  "urlretrieve e w u a t s = (Inr x, s') \<Longrightarrow> \<exists>f. map_of (temps s') t = Some f \<and> complete f"
  by (auto simp: urlretrieve_def mark_complete_def update_conv' split: option.splits prod.splits sum.splits)

lemma finish_download_fin:
  assumes "finish_download e w a t s = (r, s')" "map_of (temps s) t = Some f" "complete f"
  shows "(r = Return True \<and> good e w s s') \<or> ((\<exists>x. r = Raise x) \<and> s' = s)"
  using assms
  by (auto simp: finish_download_def good_def is_cancelled_eq seen_def Let_def
      split: option.splits if_splits)

lemma transfer_fin:
  assumes "transfer e w u a t s = (r, s')"
  shows "(r = Return True \<and> good e w s s') \<or> (r \<noteq> Return True \<and> r \<noteq> Fallthrough \<and> silent s s')"
proof -
  let ?s0 = "s\<lparr>checks := Suc (checks s)\<rparr>"
  show ?thesis
  proof (cases "cancelled_before e (Suc (checks s))")
    case True
    then show ?thesis using assms by (auto simp: transfer_def is_cancelled_eq silent_def)
  next
    case nc: False
    obtain r1 s1 where ur: "urlretrieve e w u a t ?s0 = (r1, s1)" by force
    have sil1: "silent s s1" using urlretrieve_silent[OF ur] by (simp add: silent_def)
    show ?thesis
    proof (cases r1)
      case (Inl x)
      then show ?thesis using assms nc ur sil1
        by (auto simp: transfer_def is_cancelled_eq silent_def split: if_splits)
    next
      case (Inr y)
      then obtain f where f: "map_of (temps s1) t = Some f" "complete f"
        using urlretrieve_complete ur by blast
      let ?s2 = "s1\<lparr>checks := Suc (checks s1)\<rparr>"
      show ?thesis
      proof (cases "cancelled_before e (Suc (checks s1))")
        case True
        then show ?thesis using assms nc ur sil1 Inr
          by (auto simp: transfer_def is_cancelled_eq silent_def split: if_splits)
      next
        case False
        obtain r2 s2 where fd: "finish_download e w a t ?s2 = (r2, s2)" by force
        have "(r2 = Return True \<and> good e w ?s2 s2) \<or> ((\<exists>x. r2 = Raise x) \<and> s2 = ?s2)"
          using finish_download_fin[OF fd] f by simp
        then show ?thesis using assms nc ur sil1 Inr False fd
          by (auto simp: transfer_def is_cancelled_eq silent_def good_def split: if_splits)
      qed
    qed
  qed
qed


lemma backoff_silent: "backoff e b st s = (r, s') \<Longrightarrow> silent s s' \<and> r \<noteq> Return True \<and> (\<forall>x. r \<noteq> Raise x)"
proof (induction e b st s arbitrary: r s' rule: backoff.induct)
  case (1 e b st s)
  show ?case
  proof (cases "now s - st < b")
    case False
    then show ?thesis using "1.prems" by (simp add: backoff.simps[of e b st s])
  next
    case True
    note t = this
    show ?thesis
    proof (cases "cancelled_before e (Suc (checks s))")
      case True
      then show ?thesis using "1.prems" t by (auto simp: backoff.simps[of e b st s] is_cancelled_eq silent_def)
    next
      case False
      let ?s1 = "s\<lparr>checks := Suc (checks s)\<rparr>"
      have ic: "is_cancelled e s = (False, ?s1)" using False by (simp add: is_cancelled_eq)
      have eq: "backoff e b st (sleep 100 ?s1) = (r, s')"
        using "1.prems" t False by (simp add: backoff.simps[of e b st s] is_cancelled_eq)
      have "silent (sleep 100 ?s1) s' \<and> r \<noteq> Return True \<and> (\<forall>x. r \<noteq> Raise x)"
        by (rule "1.IH"[OF t ic[symmetric] _ eq]) simp
      then show ?thesis by (simp add: silent_def)
    qed
  qed
qed

lemma handle_failure_silent:
  assumes "handle_failure e w u k mx x s = (r, s')"
  shows "silent s s' \<and> r \<noteq> Return True"
proof (cases "cancelled_before e (Suc (checks s))")
  case True
  then show ?thesis using assms by (auto simp: handle_failure_def is_cancelled_eq silent_def)
next
  case False
  let ?s1 = "(emit (Caught x) s)\<lparr>checks := Suc (checks s)\<rparr>"
  show ?thesis
  proof (cases "url_host u")
    case None
    then show ?thesis using assms False by (auto simp: handle_failure_def is_cancelled_eq silent_def)
  next
    case (Some h)
    show ?thesis
    proof (cases "k < mx")
      case lt: True
      let ?s2 = "emit (Progress (filepath w)
                   (''Retry '' @ show_nat k @ ''/'' @ show_nat mx @ '' from '' @ h @ '': '' @ name w) 0) ?s1"
      have "backoff e (1000 * 2 ^ k) (now ?s2) ?s2 = (r, s')"
        using assms False Some lt by (simp add: handle_failure_def is_cancelled_eq Let_def)
      from backoff_silent[OF this] show ?thesis by (simp add: silent_def)
    next
      case False
      then show ?thesis using assms \<open>\<not> cancelled_before e (Suc (checks s))\<close> Some
        by (auto simp: handle_failure_def is_cancelled_eq silent_def)
    qed
  qed
qed

lemma prepare_silent: "prepare e w a t s = (r, s') \<Longrightarrow> silent s s'"
  by (auto simp: prepare_def silent_def Let_def split: option.splits if_splits)

lemma attempt_fin:
  assumes "attempt e w u k mx s = (r, s')"
  shows "(r = Return True \<and> good e w s s') \<or> (r \<noteq> Return True \<and> silent s s')"
proof (cases "cancelled_before e (Suc (checks s))")
  case True
  then show ?thesis using assms by (auto simp: attempt_def is_cancelled_eq silent_def)
next
  case False
  let ?s0 = "s\<lparr>checks := Suc (checks s)\<rparr>"
  let ?s1 = "emit (Attempt u k) (?s0\<lparr>begun := Suc (begun ?s0)\<rparr>)"
  let ?a = "io e (begun s)"
  obtain r2 s2 where pr: "prepare e w ?a (begun s) ?s1 = (r2, s2)" by force
  have sil2: "silent s s2" using prepare_silent[OF pr] by (simp add: silent_def)
  show ?thesis
  proof (cases r2)
    case (Inl x)
    obtain r3 s3 where hf: "handle_failure e w u k mx x s2 = (r3, s3)" by force
    have "r = r3" "s' = s3" using assms False pr Inl hf by (auto simp: attempt_def is_cancelled_eq Let_def)
    then show ?thesis using handle_failure_silent[OF hf] sil2 by (auto intro: silent_trans)
  next
    case (Inr t)
    obtain r3 s3 where tr: "transfer e w u ?a t s2 = (r3, s3)" by force
    from transfer_fin[OF tr] show ?thesis
    proof
      assume g: "r3 = Return True \<and> good e w s2 s3"
      then have "r = r3" "s' = s3" using assms False pr Inr tr by (auto simp: attempt_def is_cancelled_eq Let_def)
      then show ?thesis using g sil2 by (auto simp: good_def silent_def)
    next
      assume b: "r3 \<noteq> Return True \<and> r3 \<noteq> Fallthrough \<and> silent s2 s3"
      show ?thesis
      proof (cases r3)
        case (Return b')
        then have "r = r3" "s' = s3" using assms False pr Inr tr by (auto simp: attempt_def is_cancelled_eq Let_def)
        then show ?thesis using b sil2 by (auto intro: silent_trans)
      next
        case (Raise x)
        obtain r4 s4 where hf: "handle_failure e w u k mx x s3 = (r4, s4)" by force
        have "r = r4" "s' = s4" using assms False pr Inr tr Raise hf by (auto simp: attempt_def is_cancelled_eq Let_def)
        then show ?thesis using handle_failure_silent[OF hf] sil2 b by (auto intro: silent_trans)
      next
        case Fallthrough then show ?thesis using b by simp
      qed
    qed
  qed
qed

lemma try_attempts_fin:
  "try_attempts e w u mx ks s = (r, s') \<Longrightarrow>
     (r = Return True \<and> good e w s s') \<or> (r \<noteq> Return True \<and> silent s s')"
proof (induction ks arbitrary: s)
  case Nil then show ?case by auto
next
  case (Cons k ks)
  obtain r1 s1 where at: "attempt e w u k mx s = (r1, s1)" by force
  show ?case
  proof (cases "r1 = Fallthrough")
    case True
    then have sil: "silent s s1" using attempt_fin[OF at] by auto
    have "try_attempts e w u mx ks s1 = (r, s')" using Cons.prems at True by simp
    from Cons.IH[OF this] show ?thesis using sil by (auto simp: good_def silent_def)
  next
    case False
    then have "r = r1" "s' = s1" using Cons.prems at by (auto split: flow.splits)
    then show ?thesis using attempt_fin[OF at] by simp
  qed
qed

lemma try_download_fin:
  "try_download e w u m s = (r, s') \<Longrightarrow>
     (r = Return True \<and> good e w s s') \<or> (r \<noteq> Return True \<and> silent s s')"
  unfolding try_download_def by (rule try_attempts_fin)

lemma try_fallbacks_fin:
  "try_fallbacks e w fs s = (r, s') \<Longrightarrow>
     (r = Return True \<and> good e w s s') \<or>
     (r = Return False \<and> silent s s' \<and> seen e s') \<or>
     ((r = Fallthrough \<or> (\<exists>x. r = Raise x)) \<and> silent s s')"
proof (induction fs arbitrary: s)
  case Nil then show ?case by simp
next
  case (Cons f fs)
  show ?case
  proof (cases "cancelled_before e (Suc (checks s))")
    case True
    then show ?thesis using Cons.prems by (auto simp: is_cancelled_eq silent_def seen_def cancelled_msg_def)
  next
    case False
    let ?s0 = "s\<lparr>checks := Suc (checks s)\<rparr>"
    obtain r1 s1 where td: "try_download e w f 1 ?s0 = (r1, s1)" by force
    from try_download_fin[OF td] show ?thesis
    proof
      assume g: "r1 = Return True \<and> good e w ?s0 s1"
      then have "r = Return True" "s' = s1" using Cons.prems False td by (auto simp: is_cancelled_eq)
      then show ?thesis using g by (auto simp: good_def)
    next
      assume b: "r1 \<noteq> Return True \<and> silent ?s0 s1"
      then have sil: "silent s s1" by (simp add: silent_def)
      show ?thesis
      proof (cases "\<exists>x. r1 = Raise x")
        case True
        then have "r = r1" "s' = s1" using Cons.prems False td by (auto simp: is_cancelled_eq)
        then show ?thesis using True sil by auto
      next
        case nr: False
        have "try_fallbacks e w fs s1 = (r, s')" using Cons.prems False td b nr
          by (cases r1) (auto simp: is_cancelled_eq split: bool.splits)
        from Cons.IH[OF this] show ?thesis using sil by (auto simp: good_def silent_def)
      qed
    qed
  qed
qed


lemma good_after_silent: "silent s s1 \<Longrightarrow> good e w s1 s2 \<Longrightarrow> good e w s s2"
  by (auto simp: good_def silent_def)

lemma settled_after_silent: "silent s s1 \<Longrightarrow> settled e w s1 s2 \<Longrightarrow> settled e w s s2"
  by (auto simp: settled_def good_def silent_def)

lemma read_true_settled:
  "cancelled_before e (Suc (checks s)) \<Longrightarrow> settled e w s (emit (cancelled_msg w) (s\<lparr>checks := Suc (checks s)\<rparr>))"
  "cancelled_before e (Suc (checks s)) \<Longrightarrow> settled e w s (s\<lparr>checks := Suc (checks s)\<rparr>)"
  by (simp_all add: settled_def silent_def seen_def cancelled_msg_def)

lemma read_false_settled:
  "\<not> cancelled_before e (Suc (checks s)) \<Longrightarrow>
    settled e w s (emit (Finished False (filepath w) m) (emit (Progress p t n) (s\<lparr>checks := Suc (checks s)\<rparr>)))"
  by (simp add: settled_def seen_def)

lemma run_body_settled:
  assumes "run_body e w s = (r, s')"
  shows "(r = None \<and> settled e w s s') \<or> ((\<exists>x. r = Some x) \<and> silent s s')"
proof -
  let ?s0 = "emit (Progress (filepath w) (''Starting download: '' @ name w) 0) s"
  let ?s1 = "?s0\<lparr>checks := Suc (checks ?s0)\<rparr>"
  have sil1: "silent s ?s1" by (simp add: silent_def)
  show ?thesis
  proof (cases "cancelled_before e (Suc (checks s))")
    case True
    then have "r = None" "s' = emit (cancelled_msg w) ?s1"
      using assms by (auto simp: run_body_def is_cancelled_eq)
    moreover have "settled e w ?s0 (emit (cancelled_msg w) ?s1)"
      using read_true_settled(1)[of e ?s0 w] True by simp
    ultimately show ?thesis using settled_after_silent[of s ?s0] by (simp add: silent_def)
  next
    case nc: False
    obtain r1 s2 where td: "try_download e w (url w) (retry_count w) ?s1 = (r1, s2)" by force
    have body: "run_body e w s =
       (case (r1, s2) of
               (Raise x, s2) \<Rightarrow> (Some x, s2)
             | (Return True, s2) \<Rightarrow> (None, s2)
             | (_, s2) \<Rightarrow>
                 (case is_cancelled e s2 of (c2, s3) \<Rightarrow>
                    if c2 then (None, emit (cancelled_msg w) s3)
                    else
                      (case (if fallback_urls w \<noteq> []
                             then try_fallbacks e w (fallback_urls w)
                                    (emit (Progress (filepath w)
                                       (''Primary URL failed, trying alternatives for: '' @ name w) 0) s3)
                             else (Fallthrough, s3)) of
                         (Raise x, s4) \<Rightarrow> (Some x, s4)
                       | (Return b, s4) \<Rightarrow> (None, s4)
                       | (Fallthrough, s4) \<Rightarrow>
                           (case is_cancelled e s4 of (c3, s5) \<Rightarrow>
                              if \<not> c3
                              then (None,
                                    emit (Finished False (filepath w) ''All download URLs failed'')
                                      (emit (Progress (filepath w) (''All URLs failed for: '' @ name w) 0) s5))
                              else (None, s5)))))"
      using nc td by (simp add: run_body_def is_cancelled_eq)
    from try_download_fin[OF td] show ?thesis
    proof
      assume g: "r1 = Return True \<and> good e w ?s1 s2"
      then have "r = None" "s' = s2" using assms body by auto
      then show ?thesis using g good_after_silent[OF sil1] by (auto simp: settled_def)
    next
      assume b: "r1 \<noteq> Return True \<and> silent ?s1 s2"
      then have sil2: "silent s s2" using sil1 silent_trans by blast
      show ?thesis
      proof (cases "\<exists>x. r1 = Raise x")
        case True
        then have "\<exists>x. r = Some x" "s' = s2" using assms body by auto
        then show ?thesis using sil2 by simp
      next
        case nr: False
        let ?s3 = "s2\<lparr>checks := Suc (checks s2)\<rparr>"
        have sil3: "silent s ?s3" using sil2 by (simp add: silent_def)
        show ?thesis
        proof (cases "cancelled_before e (Suc (checks s2))")
          case True
          then have "r = None" "s' = emit (cancelled_msg w) ?s3"
            using assms body b nr by (cases r1; auto simp: is_cancelled_eq split: bool.splits)+
          then show ?thesis using read_true_settled(1)[OF True, of w] sil2 settled_after_silent by blast
        next
          case nc2: False
          let ?s3' = "emit (Progress (filepath w) (''Primary URL failed, trying alternatives for: '' @ name w) 0) ?s3"
          obtain r4 s4 where fb: "(if fallback_urls w \<noteq> [] then try_fallbacks e w (fallback_urls w) ?s3'
                                    else (Fallthrough, ?s3)) = (r4, s4)" by force
          have body2: "(r, s') = (case (r4, s4) of
                         (Raise x, s4) \<Rightarrow> (Some x, s4)
                       | (Return b, s4) \<Rightarrow> (None, s4)
                       | (Fallthrough, s4) \<Rightarrow>
                           (case is_cancelled e s4 of (c3, s5) \<Rightarrow>
                              if \<not> c3
                              then (None,
                                    emit (Finished False (filepath w) ''All download URLs failed'')
                                      (emit (Progress (filepath w) (''All URLs failed for: '' @ name w) 0) s5))
                              else (None, s5)))"
            using assms body b nr nc2 fb by (cases r1; simp add: is_cancelled_eq split: bool.splits)
          have sil3': "silent s ?s3'" using sil3 by (simp add: silent_def)
          have fbf: "(r4 = Return True \<and> good e w s s4) \<or>
                     (r4 = Return False \<and> silent s s4 \<and> seen e s4) \<or>
                     ((r4 = Fallthrough \<or> (\<exists>x. r4 = Raise x)) \<and> silent s s4)"
          proof (cases "fallback_urls w \<noteq> []")
            case True
            then have "try_fallbacks e w (fallback_urls w) ?s3' = (r4, s4)" using fb by simp
            from try_fallbacks_fin[OF this] show ?thesis
              using sil3' good_after_silent silent_trans by blast
          next
            case False
            then show ?thesis using fb sil3 by auto
          qed
          show ?thesis
          proof (cases r4)
            case (Return b')
            then have "r = None" "s' = s4" using body2 by auto
            then show ?thesis using fbf Return by (cases b') (auto simp: settled_def)
          next
            case (Raise x)
            then have "r = Some x" "s' = s4" using body2 by auto
            then show ?thesis using fbf Raise by auto
          next
            case Fallthrough
            then have sil4: "silent s s4" using fbf by auto
            show ?thesis
            proof (cases "cancelled_before e (Suc (checks s4))")
              case True
              then have "r = None" "s' = s4\<lparr>checks := Suc (checks s4)\<rparr>"
                using body2 Fallthrough by (auto simp: is_cancelled_eq)
              then show ?thesis using read_true_settled(2)[OF True, of w] sil4 settled_after_silent by blast
            next
              case False
              then have "r = None" "s' = emit (Finished False (filepath w) ''All download URLs failed'')
                    (emit (Progress (filepath w) (''All URLs failed for: '' @ name w) 0) (s4\<lparr>checks := Suc (checks s4)\<rparr>))"
                using body2 Fallthrough by (auto simp: is_cancelled_eq)
              then show ?thesis using read_false_settled[OF False] sil4 settled_after_silent by blast
            qed
          qed
        qed
      qed
    qed
  qed
qed

lemma run_settled: "settled e w s (run e w s)"
proof -
  obtain r s1 where rb: "run_body e w s = (r, s1)" by force
  from run_body_settled[OF rb] show ?thesis
  proof
    assume "r = None \<and> settled e w s s1"
    then show ?thesis using rb by (simp add: run_def)
  next
    assume a: "(\<exists>x. r = Some x) \<and> silent s s1"
    then obtain x where x: "r = Some x" by blast
    have sil: "silent s s1" using a by simp
    show ?thesis
    proof (cases "cancelled_before e (Suc (checks s1))")
      case True
      then have eq: "run e w s = s1\<lparr>checks := Suc (checks s1)\<rparr>"
        using rb x by (simp add: run_def is_cancelled_eq)
      have "settled e w s1 (s1\<lparr>checks := Suc (checks s1)\<rparr>)"
        by (rule read_true_settled(2)[OF True])
      then show ?thesis unfolding eq by (rule settled_after_silent[OF sil])
    next
      case False
      then have eq: "run e w s = emit (Finished False (filepath w) (''Thread error: '' @ x))
                    (emit (Progress (filepath w) (''Error in download thread: '' @ name w) 0)
                       (s1\<lparr>checks := Suc (checks s1)\<rparr>))"
        using rb x by (simp add: run_def is_cancelled_eq)
      have "settled e w s1 (emit (Finished False (filepath w) (''Thread error: '' @ x))
                    (emit (Progress (filepath w) (''Error in download thread: '' @ name w) 0)
                       (s1\<lparr>checks := Suc (checks s1)\<rparr>)))"
        by (rule read_false_settled[OF False])
      then show ?thesis unfolding eq by (rule settled_after_silent[OF sil])
    qed
  qed
qed

lemma fe_init: "finished_events init_state = []" by (simp add: finished_events_def init_state_def)


section \<open>Exactly when an attempt returns True\<close>

lemma not_cb_mono: "\<not> cancelled_before e m \<Longrightarrow> n \<le> m \<Longrightarrow> \<not> cancelled_before e n"
  using cb_mono by blast

lemma report_progress_exact:
  "report_progress e w u tot n s = (r, s') \<Longrightarrow>
     checks s' = Suc (checks s) \<and> temps s' = temps s \<and>
     (r = Inr () \<longleftrightarrow> (tot \<le> 0 \<or> url_host u \<noteq> None) \<and> \<not> cancelled_before e (Suc (checks s)))"
  by (auto simp: report_progress_def is_cancelled_eq emit_def split: if_splits option.splits)

lemma temp_size_append [simp]: "temp_size t (append_temp t b s) = temp_size t s + b"
  by (simp add: temp_size_def append_temp_def update_conv')

lemma receive_exact:
  "receive e w u tot t bs n s = (r, s') \<Longrightarrow> \<not> cancelled_before e (checks s) \<Longrightarrow>
     (r = Inr () \<longleftrightarrow> (bs = [] \<or> tot \<le> 0 \<or> url_host u \<noteq> None) \<and>
                     \<not> cancelled_before e (checks s + length bs)) \<and>
     (r = Inr () \<longrightarrow> checks s' = checks s + length bs \<and> temp_size t s' = temp_size t s + sum_list bs)"
proof (induction bs arbitrary: n s)
  case Nil
  then show ?case by auto
next
  case (Cons b bs)
  let ?s0 = "append_temp t b s"
  obtain r1 s1 where rp: "report_progress e w u tot (Suc n) ?s0 = (r1, s1)" by force
  note ex = report_progress_exact[OF rp]
  have c1: "checks s1 = Suc (checks s)" using ex by simp
  have ts1: "temp_size t s1 = temp_size t s + b" using ex by (simp add: temp_size_def append_temp_def update_conv')
  show ?case
  proof (cases r1)
    case (Inl x)
    then have r: "r = Inl x" using Cons.prems rp by simp
    have "\<not> ((tot \<le> 0 \<or> url_host u \<noteq> None) \<and> \<not> cancelled_before e (Suc (checks s)))"
      using ex Inl by auto
    then have "\<not> ((tot \<le> 0 \<or> url_host u \<noteq> None) \<and> \<not> cancelled_before e (checks s + length (b # bs)))"
      using cb_mono[of e "Suc (checks s)" "checks s + length (b # bs)"] by auto
    then show ?thesis using r by auto
  next
    case (Inr y)
    then have rec: "receive e w u tot t bs (Suc n) s1 = (r, s')" using Cons.prems rp by simp
    have ok1: "(tot \<le> 0 \<or> url_host u \<noteq> None)" "\<not> cancelled_before e (Suc (checks s))"
      using ex Inr by auto
    have "\<not> cancelled_before e (checks s1)" using ok1 c1 by simp
    note ih = Cons.IH[OF rec this]
    have "\<not> cancelled_before e (checks s1 + length bs) \<Longrightarrow> \<not> cancelled_before e (Suc (checks s))"
      using not_cb_mono[of e "checks s1 + length bs" "Suc (checks s)"] c1 by simp
    then show ?thesis using ih ok1 c1 ts1 by (auto simp: add.assoc)
  qed
qed

lemma urlretrieve_exact:
  assumes "urlretrieve e w u a t s = (r, s')"
  shows "(r = Inr () \<longleftrightarrow> open_err a = None \<and> read_err a = None \<and> hook_ok u a \<and>
                      \<not> cancelled_before e (checks s + length (blocks a) + 1)) \<and>
         (r = Inr () \<longrightarrow> checks s' = checks s + length (blocks a) + 1 \<and>
             map_of (temps s') t = Some \<lparr>nbytes = sum_list (blocks a), complete = True\<rparr>)"
proof (cases "open_err a")
  case (Some x)
  then show ?thesis using assms by (auto simp: urlretrieve_def)
next
  case None
  let ?s0 = "s\<lparr>temps := AList.update t \<lparr>nbytes = 0, complete = False\<rparr> (temps s)\<rparr>"
  obtain r1 s1 where rp: "report_progress e w u (total_size a) 0 ?s0 = (r1, s1)" by force
  note ex = report_progress_exact[OF rp]
  have c1: "checks s1 = Suc (checks s)" using ex by simp
  have ts1: "temp_size t s1 = 0" using ex by (simp add: temp_size_def update_conv')
  show ?thesis
  proof (cases r1)
    case (Inl x)
    then have r: "r = Inl x" using assms None rp by (simp add: urlretrieve_def)
    have "\<not> (hook_ok u a \<and> \<not> cancelled_before e (Suc (checks s)))"
      using ex Inl by (auto simp: hook_ok_def)
    then have "\<not> (hook_ok u a \<and> \<not> cancelled_before e (checks s + length (blocks a) + 1))"
      using cb_mono[of e "Suc (checks s)" "checks s + length (blocks a) + 1"] by auto
    then show ?thesis using r by auto
  next
    case (Inr y)
    have ok1: "hook_ok u a" "\<not> cancelled_before e (Suc (checks s))"
      using ex Inr by (auto simp: hook_ok_def)
    obtain r2 s2 where rc: "receive e w u (total_size a) t (blocks a) 0 s1 = (r2, s2)" by force
    have "\<not> cancelled_before e (checks s1)" using ok1 c1 by simp
    note rx = receive_exact[OF rc this]
    have hk: "blocks a = [] \<or> total_size a \<le> 0 \<or> url_host u \<noteq> None" using ok1 by (auto simp: hook_ok_def)
    show ?thesis
    proof (cases r2)
      case (Inl x)
      then have r: "r = Inl x" using assms None rp Inr rc by (simp add: urlretrieve_def)
      have "cancelled_before e (checks s1 + length (blocks a))" using rx Inl hk by auto
      then show ?thesis using r c1 by (simp add: add.commute)
    next
      case (Inr z)
      then have nc: "\<not> cancelled_before e (checks s + length (blocks a) + 1)"
        using rx c1 by (simp add: add.commute)
      have cs2: "checks s2 = checks s + length (blocks a) + 1" using rx Inr c1 by simp
      have ts2: "temp_size t s2 = sum_list (blocks a)" using rx Inr ts1 by simp
      show ?thesis
      proof (cases "read_err a")
        case (Some x)
        then have "r = Inl x" using assms None rp \<open>r1 = Inr y\<close> rc Inr by (simp add: urlretrieve_def)
        then show ?thesis using Some by simp
      next
        case rn: None
        then have "r = Inr ()" "s' = mark_complete t s2"
          using assms None rp \<open>r1 = Inr y\<close> rc Inr by (simp_all add: urlretrieve_def)
        then show ?thesis using None rn ok1 nc cs2 ts2
          by (simp add: mark_complete_def update_conv' temp_size_def)
      qed
    qed
  qed
qed

lemma finish_download_exact:
  assumes "map_of (temps s) t = Some f"
  shows "fst (finish_download e w a t s) = Return True \<longleftrightarrow>
           0 < nbytes f \<and> mkdir2_err a = None \<and> move_err a = None"
  using assms by (auto simp: finish_download_def Let_def is_cancelled_eq split: option.splits)

lemma transfer_exact:
  "fst (transfer e w u a t s) = Return True \<longleftrightarrow>
     open_err a = None \<and> read_err a = None \<and> hook_ok u a \<and> 0 < sum_list (blocks a) \<and>
     mkdir2_err a = None \<and> move_err a = None \<and>
     \<not> cancelled_before e (checks s + length (blocks a) + 3)"
proof (cases "cancelled_before e (Suc (checks s))")
  case True
  then have "cancelled_before e (checks s + length (blocks a) + 3)" using cb_mono by force
  then show ?thesis using True by (simp add: transfer_def is_cancelled_eq)
next
  case nc: False
  let ?s0 = "s\<lparr>checks := Suc (checks s)\<rparr>"
  obtain r1 s1 where ur: "urlretrieve e w u a t ?s0 = (r1, s1)" by force
  note ux = urlretrieve_exact[OF ur]
  show ?thesis
  proof (cases r1)
    case (Inl x)
    then have nr: "fst (transfer e w u a t s) \<noteq> Return True"
      using nc ur by (auto simp: transfer_def is_cancelled_eq split: if_splits)
    have "\<not> (open_err a = None \<and> read_err a = None \<and> hook_ok u a \<and>
            \<not> cancelled_before e (checks ?s0 + length (blocks a) + 1))" using ux Inl by auto
    then have "\<not> (open_err a = None \<and> read_err a = None \<and> hook_ok u a \<and>
            \<not> cancelled_before e (checks s + length (blocks a) + 3))"
      using cb_mono[of e "checks ?s0 + length (blocks a) + 1" "checks s + length (blocks a) + 3"] by auto
    then show ?thesis using nr by auto
  next
    case (Inr y)
    then have ok: "open_err a = None" "read_err a = None" "hook_ok u a" using ux by auto
    have cs1: "checks s1 = checks s + length (blocks a) + 2" using ux Inr by simp
    have f: "map_of (temps s1) t = Some \<lparr>nbytes = sum_list (blocks a), complete = True\<rparr>"
      using ux Inr by simp
    show ?thesis
    proof (cases "cancelled_before e (Suc (checks s1))")
      case True
      then have "fst (transfer e w u a t s) \<noteq> Return True"
        using nc ur Inr by (auto simp: transfer_def is_cancelled_eq)
      moreover have "cancelled_before e (checks s + length (blocks a) + 3)" using True cs1 by (simp add: eval_nat_numeral)
      ultimately show ?thesis by simp
    next
      case False
      then have nc3: "\<not> cancelled_before e (checks s + length (blocks a) + 3)" using cs1 by (simp add: eval_nat_numeral)
      let ?s2 = "s1\<lparr>checks := Suc (checks s1)\<rparr>"
      obtain r2 s2 where fd: "finish_download e w a t ?s2 = (r2, s2)" by force
      have fx: "r2 = Return True \<longleftrightarrow> 0 < sum_list (blocks a) \<and> mkdir2_err a = None \<and> move_err a = None"
        using finish_download_exact[of ?s2 t _ e w a] f fd by simp
      have "fst (transfer e w u a t s) = Return True \<longleftrightarrow> r2 = Return True"
        using nc ur Inr False fd by (cases r2) (auto simp: transfer_def is_cancelled_eq)
      then show ?thesis using fx ok nc3 by simp
    qed
  qed
qed

lemma prepare_exact:
  "prepare e w a t s = (r, s') \<Longrightarrow>
     checks s' = checks s \<and>
     ((\<exists>t'. r = Inr t') \<longleftrightarrow> mkdir_err a = None \<and> request_err a = None \<and> mkstemp_err a = None) \<and>
     (\<forall>t'. r = Inr t' \<longrightarrow> t' = t)"
  by (auto simp: prepare_def Let_def emit_def warn_def split: option.splits if_splits)

lemma attempt_exact:
  "fst (attempt e w u k mx s) = Return True \<longleftrightarrow>
     succeeds (io e (begun s)) \<and> hook_ok u (io e (begun s)) \<and>
     \<not> cancelled_before e (checks s + length (blocks (io e (begun s))) + 4)"
proof (cases "cancelled_before e (Suc (checks s))")
  case True
  then have "cancelled_before e (checks s + length (blocks (io e (begun s))) + 4)" using cb_mono by force
  then show ?thesis using True by (simp add: attempt_def is_cancelled_eq)
next
  case nc: False
  let ?a = "io e (begun s)"
  let ?s0 = "s\<lparr>checks := Suc (checks s)\<rparr>"
  let ?s1 = "emit (Attempt u k) (?s0\<lparr>begun := Suc (begun ?s0)\<rparr>)"
  obtain r2 s2 where pr: "prepare e w ?a (begun s) ?s1 = (r2, s2)" by force
  note px = prepare_exact[OF pr]
  show ?thesis
  proof (cases r2)
    case (Inl x)
    obtain r3 s3 where hf: "handle_failure e w u k mx x s2 = (r3, s3)" by force
    have "fst (attempt e w u k mx s) = r3"
      using nc pr Inl hf by (simp add: attempt_def is_cancelled_eq Let_def)
    then have "fst (attempt e w u k mx s) \<noteq> Return True" using handle_failure_silent[OF hf] by simp
    moreover have "\<not> succeeds ?a" using px Inl by (auto simp: succeeds_def)
    ultimately show ?thesis by simp
  next
    case (Inr t)
    then have pok: "mkdir_err ?a = None" "request_err ?a = None" "mkstemp_err ?a = None" using px by auto
    have cs2: "checks s2 = Suc (checks s)" using px by simp
    obtain r3 s3 where tr: "transfer e w u ?a t s2 = (r3, s3)" by force
    have tx: "r3 = Return True \<longleftrightarrow>
       open_err ?a = None \<and> read_err ?a = None \<and> hook_ok u ?a \<and> 0 < sum_list (blocks ?a) \<and>
       mkdir2_err ?a = None \<and> move_err ?a = None \<and>
       \<not> cancelled_before e (checks s + length (blocks ?a) + 4)"
      using transfer_exact[of e w u ?a t s2] tr cs2 by (simp add: eval_nat_numeral)
    have "fst (attempt e w u k mx s) = Return True \<longleftrightarrow> r3 = Return True"
    proof (cases r3)
      case (Return b)
      then show ?thesis using nc pr Inr tr by (simp add: attempt_def is_cancelled_eq Let_def)
    next
      case (Raise x)
      obtain r4 s4 where hf: "handle_failure e w u k mx x s3 = (r4, s4)" by force
      have "fst (attempt e w u k mx s) = r4"
        using nc pr Inr tr Raise hf by (simp add: attempt_def is_cancelled_eq Let_def)
      then show ?thesis using handle_failure_silent[OF hf] Raise by simp
    next
      case Fallthrough
      then show ?thesis using nc pr Inr tr by (simp add: attempt_def is_cancelled_eq Let_def)
    qed
    then show ?thesis using tx pok by (auto simp: succeeds_def)
  qed
qed


lemma url_host_sample: "url_host (url sample_worker) = Some ''sound-effects.bbcrewind.co.uk''"
  by (simp add: sample_worker_def url_host_def)

section \<open>Runs that are never cancelled\<close>

lemma nc_is_cancelled: "cancel_after e = None \<Longrightarrow> is_cancelled e s = (False, s\<lparr>checks := Suc (checks s)\<rparr>)"
  by (simp add: is_cancelled_def)

lemma nc_cb: "cancel_after e = None \<Longrightarrow> \<not> cancelled_before e n"
  by (simp add: cancelled_before_def)

lemma ol_simps [simp]:
  "outline (s\<lparr>checks := c\<rparr>) = outline s"
  "outline (s\<lparr>begun := c\<rparr>) = outline s"
  "outline (s\<lparr>temps := ts\<rparr>) = outline s"
  "outline (s\<lparr>dest := d\<rparr>) = outline s"
  "outline (warn m s) = outline s"
  "outline (sleep n s) = outline s @ [Nap]"
  "outline (cleanup_temp a t s) = outline s"
  "outline (append_temp t b s) = outline s"
  "outline (mark_complete t s) = outline s"
  "outline (emit ev s) = outline s @ mark_of ev"
  by (simp_all add: outline_def emit_def warn_def sleep_def cleanup_temp_def append_temp_def mark_complete_def)

lemma bg_simps [simp]:
  "begun (warn m s) = begun s" "begun (sleep n s) = begun s" "begun (cleanup_temp a t s) = begun s"
  "begun (append_temp t b s) = begun s" "begun (mark_complete t s) = begun s" "begun (emit ev s) = begun s"
  "now (emit ev s) = now s" "now (sleep n s) = now s + n" "now (warn m s) = now s"
  "now (cleanup_temp a t s) = now s" "now (append_temp t b s) = now s" "now (mark_complete t s) = now s"
  by (simp_all add: emit_def warn_def sleep_def cleanup_temp_def append_temp_def mark_complete_def)

lemma report_progress_ol:
  "report_progress e w u tot n s = (r, s') \<Longrightarrow> outline s' = outline s \<and> begun s' = begun s \<and> now s' = now s"
  by (auto simp: report_progress_def is_cancelled_def split: if_splits option.splits)

lemma receive_ol:
  "receive e w u tot t bs n s = (r, s') \<Longrightarrow> outline s' = outline s \<and> begun s' = begun s \<and> now s' = now s"
proof (induction bs arbitrary: n s)
  case Nil then show ?case by simp
next
  case (Cons b bs)
  obtain r1 s1 where rp: "report_progress e w u tot (Suc n) (append_temp t b s) = (r1, s1)" by force
  show ?case using Cons.prems rp report_progress_ol[OF rp] Cons.IH[of "Suc n" s1]
    by (auto split: sum.splits)
qed

lemma urlretrieve_ol:
  assumes "urlretrieve e w u a t s = (r, s')"
  shows "outline s' = outline s \<and> begun s' = begun s \<and> now s' = now s"
proof (cases "open_err a")
  case (Some x) then show ?thesis using assms by (simp add: urlretrieve_def)
next
  case None
  let ?s0 = "s\<lparr>temps := AList.update t \<lparr>nbytes = 0, complete = False\<rparr> (temps s)\<rparr>"
  obtain r1 s1 where rp: "report_progress e w u (total_size a) 0 ?s0 = (r1, s1)" by force
  obtain r2 s2 where rc: "receive e w u (total_size a) t (blocks a) 0 s1 = (r2, s2)" by force
  show ?thesis using assms None rp rc report_progress_ol[OF rp] receive_ol[OF rc]
    by (auto simp: urlretrieve_def split: sum.splits option.splits)
qed

lemma prepare_ol: "prepare e w a t s = (r, s') \<Longrightarrow> outline s' = outline s \<and> begun s' = begun s \<and> now s' = now s"
  by (auto simp: prepare_def Let_def split: option.splits if_splits)

lemma finish_download_ol:
  assumes "cancel_after e = None" "finish_download e w a t s = (r, s')"
  shows "begun s' = begun s \<and> now s' = now s \<and>
         ((r = Return True \<and> outline s' = outline s @ [Ok]) \<or> ((\<exists>x. r = Raise x) \<and> outline s' = outline s))"
  using assms
  by (auto simp: finish_download_def nc_is_cancelled Let_def split: option.splits if_splits)

lemma transfer_ol:
  assumes nc: "cancel_after e = None" and tr: "transfer e w u a t s = (r, s')"
  shows "begun s' = begun s \<and> now s' = now s \<and>
         ((r = Return True \<and> outline s' = outline s @ [Ok]) \<or> ((\<exists>x. r = Raise x) \<and> outline s' = outline s))"
proof -
  let ?s0 = "s\<lparr>checks := Suc (checks s)\<rparr>"
  obtain r1 s1 where ur: "urlretrieve e w u a t ?s0 = (r1, s1)" by force
  note uo = urlretrieve_ol[OF ur]
  show ?thesis
  proof (cases r1)
    case (Inl x)
    then show ?thesis using tr ur uo by (auto simp: transfer_def nc_is_cancelled[OF nc])
  next
    case (Inr y)
    let ?s2 = "s1\<lparr>checks := Suc (checks s1)\<rparr>"
    obtain r2 s2 where fd: "finish_download e w a t ?s2 = (r2, s2)" by force
    note fo = finish_download_ol[OF nc fd]
    show ?thesis using tr ur uo Inr fd fo by (auto simp: transfer_def nc_is_cancelled[OF nc])
  qed
qed

lemma backoff_nc:
  "cancel_after e = None \<Longrightarrow> backoff e b st s = (r, s') \<Longrightarrow> st \<le> now s \<Longrightarrow>
     r = Fallthrough \<and> begun s' = begun s \<and>
     now s' = now s + 100 * ((st + b - now s + 99) div 100) \<and>
     outline s' = outline s @ replicate ((st + b - now s + 99) div 100) Nap"
proof (induction e b st s arbitrary: r s' rule: backoff.induct)
  case (1 e b st s)
  show ?case
  proof (cases "now s - st < b")
    case False
    then have "st + b - now s = 0" using "1.prems" by simp
    then show ?thesis using "1.prems" False by (simp add: backoff.simps[of e b st s])
  next
    case True
    let ?s1 = "s\<lparr>checks := Suc (checks s)\<rparr>"
    have ic: "(False, ?s1) = is_cancelled e s" using "1.prems" by (simp add: nc_is_cancelled)
    have eq: "backoff e b st (sleep 100 ?s1) = (r, s')"
      using "1.prems" True by (simp add: backoff.simps[of e b st s] nc_is_cancelled)
    have le: "st \<le> now (sleep 100 ?s1)" using "1.prems" by simp
    have ih: "r = Fallthrough \<and> begun s' = begun (sleep 100 ?s1) \<and>
       now s' = now (sleep 100 ?s1) + 100 * ((st + b - now (sleep 100 ?s1) + 99) div 100) \<and>
       outline s' = outline (sleep 100 ?s1) @ replicate ((st + b - now (sleep 100 ?s1) + 99) div 100) Nap"
      by (rule "1.IH"[OF True ic _ "1.prems"(1) eq le]) simp
    define n' where "n' = (st + b - (now s + 100) + 99) div 100"
    have pos: "0 < st + b - now s" using True "1.prems" by simp
    have n: "(st + b - now s + 99) div 100 = Suc n'"
      unfolding n'_def using pos by (cases "st + b - now s \<le> 100") (auto simp: div_eq_0_iff le_div_geq)
    have o: "outline s' = outline s @ replicate (Suc n') Nap" using ih by (simp add: n'_def)
    have rb: "r = Fallthrough" "begun s' = begun s" using ih by simp_all
    have nw: "now s' = now s + 100 * Suc n'" using ih by (simp add: n'_def)
    show ?thesis unfolding n using rb o nw by blast
  qed
qed

lemma ten_slices: "(st + 1000 * 2 ^ k - st + 99) div 100 = (10 * 2 ^ k :: nat)"
proof -
  have "(1000 * m + 99) div 100 = 10 * m" for m :: nat by presburger
  from this[of "2 ^ k"] show ?thesis by simp
qed

lemma handle_failure_nc:
  assumes nc: "cancel_after e = None" and host: "url_host u = Some h"
    and hf: "handle_failure e w u k mx x s = (r, s')"
  shows "r = Fallthrough \<and> begun s' = begun s \<and>
         now s' = now s + (if k < mx then 1000 * 2 ^ k else 0) \<and>
         outline s' = outline s @ Fail # replicate (if k < mx then 10 * 2 ^ k else 0) Nap"
proof (cases "k < mx")
  case False
  then show ?thesis using hf by (auto simp: handle_failure_def nc_is_cancelled[OF nc] host)
next
  case True
  let ?s1 = "(emit (Caught x) s)\<lparr>checks := Suc (checks s)\<rparr>"
  let ?s2 = "emit (Progress (filepath w)
               (''Retry '' @ show_nat k @ ''/'' @ show_nat mx @ '' from '' @ h @ '': '' @ name w) 0) ?s1"
  have bo: "backoff e (1000 * 2 ^ k) (now ?s2) ?s2 = (r, s')"
    using hf True by (simp add: handle_failure_def nc_is_cancelled[OF nc] host Let_def)
  have "r = Fallthrough \<and> begun s' = begun ?s2 \<and>
     now s' = now ?s2 + 100 * ((now ?s2 + 1000 * 2 ^ k - now ?s2 + 99) div 100) \<and>
     outline s' = outline ?s2 @ replicate ((now ?s2 + 1000 * 2 ^ k - now ?s2 + 99) div 100) Nap"
    by (rule backoff_nc[OF nc bo]) simp
  then have "r = Fallthrough \<and> begun s' = begun ?s2 \<and>
     now s' = now ?s2 + 100 * (10 * 2 ^ k) \<and>
     outline s' = outline ?s2 @ replicate (10 * 2 ^ k) Nap"
    unfolding ten_slices .
  then show ?thesis using True by simp
qed

lemma attempt_nc:
  assumes nc: "cancel_after e = None" and host: "url_host u = Some h"
    and at: "attempt e w u k mx s = (r, s')"
  shows "begun s' = Suc (begun s) \<and>
         (if succeeds (io e (begun s))
          then r = Return True \<and> now s' = now s \<and> outline s' = outline s @ [Try u k, Ok]
          else r = Fallthrough \<and> now s' = now s + (if k < mx then 1000 * 2 ^ k else 0) \<and>
               outline s' = outline s @ Try u k # Fail # replicate (if k < mx then 10 * 2 ^ k else 0) Nap)"
proof -
  let ?a = "io e (begun s)"
  let ?s0 = "s\<lparr>checks := Suc (checks s)\<rparr>"
  let ?s1 = "emit (Attempt u k) (?s0\<lparr>begun := Suc (begun ?s0)\<rparr>)"
  have ex: "r = Return True \<longleftrightarrow> succeeds ?a"
    using attempt_exact[of e w u k mx s] at nc_cb[OF nc] host by (simp add: hook_ok_def)
  obtain r2 s2 where pr: "prepare e w ?a (begun s) ?s1 = (r2, s2)" by force
  note po = prepare_ol[OF pr]
  have o1: "outline s2 = outline s @ [Try u k]" "begun s2 = Suc (begun s)" "now s2 = now s"
    using po by simp_all
  show ?thesis
  proof (cases r2)
    case (Inl x)
    obtain r3 s3 where hf: "handle_failure e w u k mx x s2 = (r3, s3)" by force
    have "r = r3" "s' = s3" using at nc pr Inl hf by (simp_all add: attempt_def nc_is_cancelled Let_def)
    then show ?thesis using handle_failure_nc[OF nc host hf] o1 ex by auto
  next
    case (Inr t)
    obtain r3 s3 where tr: "transfer e w u ?a t s2 = (r3, s3)" by force
    note tro = transfer_ol[OF nc tr]
    show ?thesis
    proof (cases r3)
      case (Return b)
      then have "r = r3" "s' = s3" using at nc pr Inr tr by (simp_all add: attempt_def nc_is_cancelled Let_def)
      then show ?thesis using tro Return o1 ex by auto
    next
      case (Raise x)
      obtain r4 s4 where hf: "handle_failure e w u k mx x s3 = (r4, s4)" by force
      have "r = r4" "s' = s4" using at nc pr Inr tr Raise hf by (simp_all add: attempt_def nc_is_cancelled Let_def)
      then show ?thesis using handle_failure_nc[OF nc host hf] tro Raise o1 ex by auto
    next
      case Fallthrough
      then show ?thesis using tro by simp
    qed
  qed
qed

lemma marks_append: "outline s' = outline s @ ms \<Longrightarrow> marks s' = marks s @ filter (\<lambda>m. m \<noteq> Nap) ms"
  by (simp add: marks_def)

lemma attempt_nc_marks:
  assumes nc: "cancel_after e = None" and host: "url_host u = Some h"
    and at: "attempt e w u k mx s = (r, s')"
  shows "begun s' = Suc (begun s) \<and>
         (if succeeds (io e (begun s))
          then r = Return True \<and> marks s' = marks s @ [Try u k, Ok]
          else r = Fallthrough \<and> marks s' = marks s @ [Try u k, Fail])"
  using attempt_nc[OF nc host at] by (auto simp: marks_def)

lemma try_attempts_nc:
  assumes nc: "cancel_after e = None" and host: "url_host u = Some h"
  shows "try_attempts e w u mx ks s = (r, s') \<Longrightarrow>
     marks s' = marks s @ spec_attempts (\<lambda>i. succeeds (io e i)) (begun s) (map (\<lambda>k. (u, k)) ks) \<and>
     (if \<exists>j < length ks. succeeds (io e (begun s + j)) then r = Return True
      else r = Return False \<and> begun s' = begun s + length ks)"
proof (induction ks arbitrary: s)
  case Nil then show ?case by simp
next
  case (Cons k ks)
  obtain r1 s1 where at: "attempt e w u k mx s = (r1, s1)" by force
  note an = attempt_nc_marks[OF nc host at]
  show ?case
  proof (cases "succeeds (io e (begun s))")
    case True
    then have "r = Return True" "s' = s1" using Cons.prems at an by auto
    moreover have "\<exists>j < length (k # ks). succeeds (io e (begun s + j))" using True by (intro exI[of _ 0]) simp
    ultimately show ?thesis using an True by simp
  next
    case False
    then have rest: "try_attempts e w u mx ks s1 = (r, s')" using Cons.prems at an by auto
    note ih = Cons.IH[OF rest]
    have b1: "begun s1 = Suc (begun s)" using an by simp
    have ex: "(\<exists>j < length (k # ks). succeeds (io e (begun s + j))) \<longleftrightarrow>
              (\<exists>j < length ks. succeeds (io e (begun s1 + j)))"
    proof
      assume "\<exists>j < length (k # ks). succeeds (io e (begun s + j))"
      then obtain j where j: "j < length (k # ks)" "succeeds (io e (begun s + j))" by blast
      then have "j \<noteq> 0" using False by (cases j) auto
      then obtain j' where "j = Suc j'" by (cases j) auto
      then show "\<exists>j < length ks. succeeds (io e (begun s1 + j))" using j b1 by (intro exI[of _ j']) simp
    next
      assume "\<exists>j < length ks. succeeds (io e (begun s1 + j))"
      then obtain j where "j < length ks" "succeeds (io e (begun s1 + j))" by blast
      then show "\<exists>j < length (k # ks). succeeds (io e (begun s + j))" using b1 by (intro exI[of _ "Suc j"]) simp
    qed
    show ?thesis using ih an False b1 unfolding ex by simp
  qed
qed

lemma try_fallbacks_nc:
  assumes nc: "cancel_after e = None"
  shows "try_fallbacks e w fs s = (r, s') \<Longrightarrow> list_all (\<lambda>f. url_host f \<noteq> None) fs \<Longrightarrow>
     marks s' = marks s @ spec_attempts (\<lambda>i. succeeds (io e i)) (begun s) (map (\<lambda>f. (f, 1)) fs) \<and>
     (if \<exists>j < length fs. succeeds (io e (begun s + j)) then r = Return True
      else r = Fallthrough \<and> begun s' = begun s + length fs)"
proof (induction fs arbitrary: s)
  case Nil then show ?case by simp
next
  case (Cons f fs)
  then obtain h where host: "url_host f = Some h" by auto
  let ?s0 = "s\<lparr>checks := Suc (checks s)\<rparr>"
  obtain r1 s1 where td: "try_attempts e w f 1 [1] ?s0 = (r1, s1)" by force
  have td': "try_download e w f 1 ?s0 = (r1, s1)" using td by (simp add: try_download_def)
  note tn = try_attempts_nc[OF nc host td]
  have m0: "marks ?s0 = marks s" by (simp add: marks_def)
  show ?case
  proof (cases "succeeds (io e (begun s))")
    case True
    then have r1: "r1 = Return True" "marks s1 = marks s @ [Try f 1, Ok]" using tn m0 by auto
    then have "r = Return True" "s' = s1" using Cons.prems td' by (simp_all add: nc_is_cancelled[OF nc])
    moreover have "\<exists>j < length (f # fs). succeeds (io e (begun s + j))" using True by (intro exI[of _ 0]) simp
    ultimately show ?thesis using r1 True by simp
  next
    case False
    then have r1: "r1 = Return False" "marks s1 = marks s @ [Try f 1, Fail]" "begun s1 = Suc (begun s)"
      using tn m0 by auto
    then have rest: "try_fallbacks e w fs s1 = (r, s')" using Cons.prems td' by (simp add: nc_is_cancelled[OF nc])
    have la: "list_all (\<lambda>f. url_host f \<noteq> None) fs" using Cons.prems by simp
    note ih = Cons.IH[OF rest la]
    have ex: "(\<exists>j < length (f # fs). succeeds (io e (begun s + j))) \<longleftrightarrow>
              (\<exists>j < length fs. succeeds (io e (begun s1 + j)))"
    proof
      assume "\<exists>j < length (f # fs). succeeds (io e (begun s + j))"
      then obtain j where j: "j < length (f # fs)" "succeeds (io e (begun s + j))" by blast
      then have "j \<noteq> 0" using False by (cases j) auto
      then obtain j' where "j = Suc j'" by (cases j) auto
      then show "\<exists>j < length fs. succeeds (io e (begun s1 + j))" using j r1 by (intro exI[of _ j']) simp
    next
      assume "\<exists>j < length fs. succeeds (io e (begun s1 + j))"
      then obtain j where "j < length fs" "succeeds (io e (begun s1 + j))" by blast
      then show "\<exists>j < length (f # fs). succeeds (io e (begun s + j))" using r1 by (intro exI[of _ "Suc j"]) simp
    qed
    show ?thesis using ih r1 False unfolding ex by simp
  qed
qed

lemma spec_attempts_append:
  "spec_attempts ok i (xs @ ys) =
     spec_attempts ok i xs @
       (if \<exists>j < length xs. ok (i + j) then [] else spec_attempts ok (i + length xs) ys)"
proof (induction xs arbitrary: i)
  case Nil then show ?case by simp
next
  case (Cons x xs)
  obtain u k where x: "x = (u, k)" by (cases x)
  show ?case
  proof (cases "ok i")
    case True
    then have "\<exists>j < length (x # xs). ok (i + j)" by (intro exI[of _ 0]) simp
    then show ?thesis using True x by simp
  next
    case False
    have ex: "(\<exists>j < length (x # xs). ok (i + j)) \<longleftrightarrow> (\<exists>j < length xs. ok (Suc i + j))"
    proof
      assume "\<exists>j < length (x # xs). ok (i + j)"
      then obtain j where j: "j < length (x # xs)" "ok (i + j)" by blast
      then have "j \<noteq> 0" using False by (cases j) auto
      then obtain j' where "j = Suc j'" by (cases j) auto
      then show "\<exists>j < length xs. ok (Suc i + j)" using j by (intro exI[of _ j']) simp
    next
      assume "\<exists>j < length xs. ok (Suc i + j)"
      then obtain j where "j < length xs" "ok (Suc i + j)" by blast
      then show "\<exists>j < length (x # xs). ok (i + j)" by (intro exI[of _ "Suc j"]) simp
    qed
    have l: "spec_attempts ok i ((x # xs) @ ys) = Try u k # Fail # spec_attempts ok (Suc i) (xs @ ys)"
      using False x by simp
    have r: "spec_attempts ok i (x # xs) = Try u k # Fail # spec_attempts ok (Suc i) xs"
      using False x by simp
    show ?thesis
    proof (cases "\<exists>j < length xs. ok (Suc i + j)")
      case True
      then have c: "(\<exists>j < length xs. ok (Suc i + j)) = True" by simp
      have "spec_attempts ok (Suc i) (xs @ ys) = spec_attempts ok (Suc i) xs @ []"
        using Cons.IH[of "Suc i"] unfolding c if_True .
      then show ?thesis unfolding ex l r c if_True by simp
    next
      case False
      then have c: "(\<exists>j < length xs. ok (Suc i + j)) = False" by simp
      have "spec_attempts ok (Suc i) (xs @ ys) =
                 spec_attempts ok (Suc i) xs @ spec_attempts ok (Suc i + length xs) ys"
        using Cons.IH[of "Suc i"] unfolding c if_False .
      then show ?thesis unfolding ex l r c if_False by simp
    qed
  qed
qed

lemma nc_not_seen: "cancel_after e = None \<Longrightarrow> \<not> seen e s"
  by (simp add: seen_def cancelled_before_def)

lemma marks_simps [simp]:
  "marks (s\<lparr>checks := c\<rparr>) = marks s"
  "marks (emit (Progress p t n) s) = marks s"
  "marks (emit (Finished False p m) s) = marks s"
  by (simp_all add: marks_def)

lemma run_body_nc:
  assumes nc: "cancel_after e = None" and host: "url_host (url w) = Some h"
    and hosts: "list_all (\<lambda>f. url_host f \<noteq> None) (fallback_urls w)"
    and rb: "run_body e w s = (r, s')"
  shows "r = None \<and>
     marks s' = marks s @ spec_attempts (\<lambda>i. succeeds (io e i)) (begun s) (plan w) \<and>
     finished_events s' = finished_events s @
       [if \<exists>j < length (plan w). succeeds (io e (begun s + j))
        then Finished True (filepath w) ''''
        else Finished False (filepath w) ''All download URLs failed'']"
proof -
  let ?ok = "\<lambda>i. succeeds (io e i)"
  let ?n = "nat (retry_count w)"
  define P where "P = map (\<lambda>k. (url w, k)) [1 ..< Suc ?n]"
  define F where "F = map (\<lambda>f. (f, 1::nat)) (fallback_urls w)"
  let ?s0 = "emit (Progress (filepath w) (''Starting download: '' @ name w) 0) s"
  let ?s1 = "?s0\<lparr>checks := Suc (checks ?s0)\<rparr>"
  have pl: "plan w = P @ F" by (simp add: plan_def P_def F_def)
  have lenP: "length P = ?n" by (simp add: P_def)
  have lenF: "length F = length (fallback_urls w)" by (simp add: F_def)
  obtain r1 s2 where ta: "try_attempts e w (url w) ?n [1 ..< Suc ?n] ?s1 = (r1, s2)" by force
  have td: "try_download e w (url w) (retry_count w) ?s1 = (r1, s2)" using ta by (simp add: try_download_def)
  have tn: "marks s2 = marks s @ spec_attempts ?ok (begun s) P \<and>
     (if \<exists>j < ?n. ?ok (begun s + j) then r1 = Return True
      else r1 = Return False \<and> begun s2 = begun s + ?n)"
    using try_attempts_nc[OF nc host ta] unfolding P_def by simp
  have sp: "spec_attempts ?ok (begun s) (plan w) =
     spec_attempts ?ok (begun s) P @
       (if \<exists>j < ?n. ?ok (begun s + j) then [] else spec_attempts ?ok (begun s + ?n) F)"
    by (simp only: pl spec_attempts_append lenP)
  have body: "run_body e w s =
       (case (r1, s2) of
               (Raise x, s2) \<Rightarrow> (Some x, s2)
             | (Return True, s2) \<Rightarrow> (None, s2)
             | (_, s2) \<Rightarrow>
                 (case is_cancelled e s2 of (c2, s3) \<Rightarrow>
                    if c2 then (None, emit (cancelled_msg w) s3)
                    else
                      (case (if fallback_urls w \<noteq> []
                             then try_fallbacks e w (fallback_urls w)
                                    (emit (Progress (filepath w)
                                       (''Primary URL failed, trying alternatives for: '' @ name w) 0) s3)
                             else (Fallthrough, s3)) of
                         (Raise x, s4) \<Rightarrow> (Some x, s4)
                       | (Return b, s4) \<Rightarrow> (None, s4)
                       | (Fallthrough, s4) \<Rightarrow>
                           (case is_cancelled e s4 of (c3, s5) \<Rightarrow>
                              if \<not> c3
                              then (None,
                                    emit (Finished False (filepath w) ''All download URLs failed'')
                                      (emit (Progress (filepath w) (''All URLs failed for: '' @ name w) 0) s5))
                              else (None, s5)))))"
    using td by (simp add: run_body_def nc_is_cancelled[OF nc])
  show ?thesis
  proof (cases "\<exists>j < ?n. ?ok (begun s + j)")
    case True
    then have r1: "r1 = Return True" using tn by simp
    then have res: "r = None" "s' = s2" using rb body by simp_all
    have "good e w ?s1 s2" using try_download_fin[OF td] r1 by simp
    then have fe: "finished_events s2 = finished_events s @ [Finished True (filepath w) '''']"
      by (simp add: good_def nc_not_seen[OF nc])
    have ex: "\<exists>j < length (plan w). ?ok (begun s + j)"
    proof -
      from True obtain j where "j < ?n" "?ok (begun s + j)" by blast
      then show ?thesis unfolding pl by (intro exI[of _ j]) (simp add: lenP)
    qed
    have c: "(\<exists>j < ?n. ?ok (begun s + j)) = True" using True by simp
    have "marks s2 = marks s @ spec_attempts ?ok (begun s) (plan w)"
      using tn unfolding sp c if_True by simp
    then show ?thesis using res fe ex by simp
  next
    case False
    then have r1: "r1 = Return False" "begun s2 = begun s + ?n" using tn by simp_all
    have c: "(\<exists>j < ?n. ?ok (begun s + j)) = False" using False by simp
    have sil2: "finished_events s2 = finished_events s" using try_download_fin[OF td] r1 by (simp add: silent_def)
    let ?s3 = "s2\<lparr>checks := Suc (checks s2)\<rparr>"
    let ?s3' = "emit (Progress (filepath w) (''Primary URL failed, trying alternatives for: '' @ name w) 0) ?s3"
    obtain r4 s4 where fb: "try_fallbacks e w (fallback_urls w) ?s3' = (r4, s4)" by force
    note fn = try_fallbacks_nc[OF nc fb hosts]
    have fn': "marks s4 = marks s2 @ spec_attempts ?ok (begun s + ?n) F \<and>
       (if \<exists>j < length (fallback_urls w). ?ok (begun s + ?n + j) then r4 = Return True
        else r4 = Fallthrough)"
      using fn r1 unfolding F_def by simp
    have fbe: "(if fallback_urls w \<noteq> [] then try_fallbacks e w (fallback_urls w) ?s3' else (Fallthrough, ?s3))
               = (r4, if fallback_urls w \<noteq> [] then s4 else ?s3)"
      using fb by (cases "fallback_urls w") simp_all
    let ?s4 = "if fallback_urls w \<noteq> [] then s4 else ?s3"
    have m4: "marks ?s4 = marks s4" using fb by (cases "fallback_urls w") auto
    have fe4: "r4 \<noteq> Return True \<Longrightarrow> finished_events ?s4 = finished_events s"
      using try_fallbacks_fin[OF fb] sil2 by (cases "fallback_urls w") (auto simp: silent_def)
    have body2: "(r, s') = (case (r4, ?s4) of
                         (Raise x, s4) \<Rightarrow> (Some x, s4)
                       | (Return b, s4) \<Rightarrow> (None, s4)
                       | (Fallthrough, s4) \<Rightarrow>
                           (case is_cancelled e s4 of (c3, s5) \<Rightarrow>
                              if \<not> c3
                              then (None,
                                    emit (Finished False (filepath w) ''All download URLs failed'')
                                      (emit (Progress (filepath w) (''All URLs failed for: '' @ name w) 0) s5))
                              else (None, s5)))"
      using rb body r1 fbe by (simp add: nc_is_cancelled[OF nc])
    have mk: "marks s4 = marks s @ spec_attempts ?ok (begun s) (plan w)"
      using fn' tn unfolding sp c if_False by simp
    have exf: "(\<exists>j < length (plan w). ?ok (begun s + j)) \<longleftrightarrow>
               (\<exists>j < length (fallback_urls w). ?ok (begun s + ?n + j))"
    proof
      assume "\<exists>j < length (plan w). ?ok (begun s + j)"
      then obtain j where j: "j < length (plan w)" "?ok (begun s + j)" by blast
      then have "\<not> j < ?n" using False by blast
      then have "j - ?n < length (fallback_urls w)" "begun s + ?n + (j - ?n) = begun s + j"
        using j unfolding pl by (simp_all add: lenP lenF)
      then show "\<exists>j < length (fallback_urls w). ?ok (begun s + ?n + j)" using j by metis
    next
      assume "\<exists>j < length (fallback_urls w). ?ok (begun s + ?n + j)"
      then obtain j where j: "j < length (fallback_urls w)" "?ok (begun s + ?n + j)" by blast
      then show "\<exists>j < length (plan w). ?ok (begun s + j)"
        unfolding pl by (intro exI[of _ "?n + j"]) (simp add: add.assoc lenP lenF)
    qed
    show ?thesis
    proof (cases "\<exists>j < length (fallback_urls w). ?ok (begun s + ?n + j)")
      case True
      then have r4: "r4 = Return True" using fn' by simp
      have ne: "fallback_urls w \<noteq> []" using True by auto
      then have res: "r = None" "s' = s4" using body2 r4 by simp_all
      have "good e w ?s3' s4" using try_fallbacks_fin[OF fb] r4 by simp
      then have "finished_events s4 = finished_events s @ [Finished True (filepath w) '''']"
        using sil2 by (simp add: good_def nc_not_seen[OF nc])
      then show ?thesis using res mk exf True by simp
    next
      case nex: False
      then have r4: "r4 = Fallthrough" using fn' by simp
      then have res: "r = None"
         "s' = emit (Finished False (filepath w) ''All download URLs failed'')
                 (emit (Progress (filepath w) (''All URLs failed for: '' @ name w) 0)
                    (?s4\<lparr>checks := Suc (checks ?s4)\<rparr>))"
        using body2 by (simp_all add: nc_is_cancelled[OF nc])
      have "finished_events ?s4 = finished_events s" using fe4 r4 by simp
      then have fe: "finished_events s' = finished_events s @ [Finished False (filepath w) ''All download URLs failed'']"
        unfolding res by simp
      have "marks s' = marks ?s4" unfolding res by simp
      then have "marks s' = marks s @ spec_attempts ?ok (begun s) (plan w)" using m4 mk by simp
      then show ?thesis using res(1) fe exf nex by simp
    qed
  qed
qed

lemma run_nc:
  assumes nc: "cancel_after e = None" and host: "url_host (url w) = Some h"
    and hosts: "list_all (\<lambda>f. url_host f \<noteq> None) (fallback_urls w)"
  shows "marks (run e w s) = marks s @ spec_attempts (\<lambda>i. succeeds (io e i)) (begun s) (plan w) \<and>
     finished_events (run e w s) = finished_events s @
       [if \<exists>j < length (plan w). succeeds (io e (begun s + j))
        then Finished True (filepath w) ''''
        else Finished False (filepath w) ''All download URLs failed'']"
proof -
  obtain r s' where rb: "run_body e w s = (r, s')" by force
  from run_body_nc[OF nc host hosts rb] have "r = None" by simp
  then have "run e w s = s'" using rb by (simp add: run_def)
  then show ?thesis using run_body_nc[OF nc host hosts rb] by simp
qed

lemma backoff_cancelled:
  "backoff e b st s = (r, s') \<Longrightarrow> cancel_after e = Some c \<Longrightarrow> st \<le> now s \<Longrightarrow>
   checks s \<le> c \<Longrightarrow> c < checks s + (st + b - now s + 99) div 100 \<Longrightarrow>
     r = Return False \<and> checks s' = Suc c \<and> now s' = now s + 100 * (c - checks s) \<and>
     outline s' = outline s @ replicate (c - checks s) Nap"
proof (induction e b st s arbitrary: r s' rule: backoff.induct)
  case (1 e b st s)
  have pos: "0 < (st + b - now s + 99) div 100" using "1.prems" by simp
  then have lt: "now s - st < b" using "1.prems"(3) by (cases "now s - st < b") (auto simp: div_eq_0_iff)
  let ?s1 = "s\<lparr>checks := Suc (checks s)\<rparr>"
  show ?case
  proof (cases "c = checks s")
    case True
    then have "is_cancelled e s = (True, ?s1)" using "1.prems"(2) by (simp add: is_cancelled_def)
    then have "r = Return False" "s' = ?s1" using "1.prems"(1) lt by (simp_all add: backoff.simps[of e b st s])
    then show ?thesis using True by simp
  next
    case False
    then have gt: "checks s < c" using "1.prems"(4) by simp
    then have ic: "(False, ?s1) = is_cancelled e s" using "1.prems"(2) by (simp add: is_cancelled_def)
    have eq: "backoff e b st (sleep 100 ?s1) = (r, s')"
      using "1.prems"(1) lt ic[symmetric] by (simp add: backoff.simps[of e b st s])
    define n' where "n' = (st + b - (now s + 100) + 99) div 100"
    have pos': "0 < st + b - now s" using lt "1.prems"(3) by simp
    have n: "(st + b - now s + 99) div 100 = Suc n'"
      unfolding n'_def using pos' by (cases "st + b - now s \<le> 100") (auto simp: div_eq_0_iff le_div_geq)
    have p3: "st \<le> now (sleep 100 ?s1)" using "1.prems"(3) by simp
    have p4: "checks (sleep 100 ?s1) \<le> c" using gt by simp
    have p5: "c < checks (sleep 100 ?s1) + (st + b - now (sleep 100 ?s1) + 99) div 100"
      using "1.prems"(5) unfolding n by (simp add: n'_def)
    have ih: "r = Return False \<and> checks s' = Suc c \<and>
       now s' = now (sleep 100 ?s1) + 100 * (c - checks (sleep 100 ?s1)) \<and>
       outline s' = outline (sleep 100 ?s1) @ replicate (c - checks (sleep 100 ?s1)) Nap"
      by (rule "1.IH"[OF lt ic _ eq "1.prems"(2) p3 p4 p5]) simp
    obtain d where d: "c - checks s = Suc d" "c - Suc (checks s) = d" using gt by (cases "c - checks s") auto
    show ?thesis using ih d by simp
  qed
qed

lemma handle_failure_cancelled_in_backoff:
  assumes host: "url_host u = Some h" and lt: "k < mx"
    and c: "cancel_after e = Some c" and c1: "checks s < c" and c2: "c \<le> checks s + 10 * 2 ^ k"
    and hf: "handle_failure e w u k mx x s = (r, s')"
  shows "r = Return False \<and> checks s' = Suc c \<and> now s' = now s + 100 * (c - Suc (checks s)) \<and>
         outline s' = outline s @ Fail # replicate (c - Suc (checks s)) Nap"
proof -
  let ?s1 = "(emit (Caught x) s)\<lparr>checks := Suc (checks s)\<rparr>"
  let ?s2 = "emit (Progress (filepath w)
               (''Retry '' @ show_nat k @ ''/'' @ show_nat mx @ '' from '' @ h @ '': '' @ name w) 0) ?s1"
  have ic: "is_cancelled e (emit (Caught x) s) = (False, ?s1)" using c c1 by (simp add: is_cancelled_def)
  have bo: "backoff e (1000 * 2 ^ k) (now ?s2) ?s2 = (r, s')"
    using hf lt ic by (simp add: handle_failure_def host Let_def)
  have p4: "checks ?s2 \<le> c" using c1 by simp
  have p5: "c < checks ?s2 + (now ?s2 + 1000 * 2 ^ k - now ?s2 + 99) div 100"
    unfolding ten_slices using c2 by simp
  have "r = Return False \<and> checks s' = Suc c \<and> now s' = now ?s2 + 100 * (c - checks ?s2) \<and>
     outline s' = outline ?s2 @ replicate (c - checks ?s2) Nap"
    by (rule backoff_cancelled[OF bo c _ p4 p5]) simp
  then show ?thesis by simp
qed

lemma spec_attempts_all_fail:
  "\<forall>j < length ks. \<not> ok (i + j) \<Longrightarrow>
     spec_attempts ok i (map (\<lambda>k. (u, k)) ks) = concat (map (\<lambda>k. [Try u k, Fail]) ks)"
proof (induction ks arbitrary: i)
  case Nil then show ?case by simp
next
  case (Cons k ks)
  have "\<not> ok i" using Cons.prems by (elim allE[of _ 0]) simp
  moreover have "\<forall>j < length ks. \<not> ok (Suc i + j)"
  proof (intro allI impI)
    fix j assume "j < length ks"
    then show "\<not> ok (Suc i + j)" using Cons.prems by (elim allE[of _ "Suc j"]) simp
  qed
  ultimately show ?case using Cons.IH[of "Suc i"] by simp
qed


lemma naps_outline: "naps s = length (filter (\<lambda>m. m = Nap) (outline s))"
proof -
  have "length (filter (\<lambda>ev. case ev of Slept ms \<Rightarrow> True | _ \<Rightarrow> False) l)
        = length (filter (\<lambda>m. m = Nap) (concat (map mark_of l)))" for l
  proof (induction l)
    case Nil then show ?case by simp
  next
    case (Cons ev l) then show ?case by (cases ev) auto
  qed
  then show ?thesis by (simp add: naps_def outline_def)
qed

lemma hosts_sample: "list_all (\<lambda>f. url_host f \<noteq> None) (fallback_urls sample_worker)"
  by (simp add: sample_worker_def url_host_def)

section \<open>The slices slept along a run\<close>

lemma gap_retry:
  assumes "1 \<le> j" "j \<le> mx" "rest = [] \<or> snd (hd rest) = 1"
  shows "gap (u, j) (map (\<lambda>k. (u, k)) [Suc j ..< Suc mx] @ rest) = (if j < mx then 10 * 2 ^ j else 0)"
proof (cases "j < mx")
  case True
  then have "[Suc j ..< Suc mx] = Suc j # [Suc (Suc j) ..< Suc mx]" by (simp add: upt_conv_Cons)
  then show ?thesis using True by simp
next
  case False
  then have "[Suc j ..< Suc mx] = []" using assms by simp
  then show ?thesis using False assms by (cases rest) auto
qed

lemma try_attempts_ol:
  assumes nc: "cancel_after e = None" and host: "url_host u = Some h"
    and rest: "rest = [] \<or> snd (hd rest) = 1"
  shows "n = Suc mx - j \<Longrightarrow> 1 \<le> j \<Longrightarrow> try_attempts e w u mx [j ..< Suc mx] s = (r, s') \<Longrightarrow>
     (r = Return True \<and>
        outline s' = outline s @ spec_schedule (\<lambda>i. succeeds (io e i)) (begun s)
                                   (map (\<lambda>k. (u, k)) [j ..< Suc mx] @ rest)) \<or>
     (r = Return False \<and>
        outline s @ spec_schedule (\<lambda>i. succeeds (io e i)) (begun s)
                                   (map (\<lambda>k. (u, k)) [j ..< Suc mx] @ rest)
          = outline s' @ spec_schedule (\<lambda>i. succeeds (io e i)) (begun s') rest)"
proof (induction n arbitrary: j s)
  case 0
  then have "[j ..< Suc mx] = []" by simp
  then show ?case using "0.prems" by simp
next
  case (Suc n)
  have le: "j \<le> mx" using Suc.prems(1) by simp
  then have l: "[j ..< Suc mx] = j # [Suc j ..< Suc mx]" by (simp add: upt_conv_Cons)
  obtain r1 s1 where at: "attempt e w u j mx s = (r1, s1)" by force
  note an = attempt_nc[OF nc host at]
  let ?ok = "\<lambda>i. succeeds (io e i)"
  define P' where "P' = map (\<lambda>k. (u, k)) [Suc j ..< Suc mx] @ rest"
  have P: "map (\<lambda>k. (u, k)) [j ..< Suc mx] @ rest = (u, j) # P'" unfolding l P'_def by simp
  have g: "gap (u, j) P' = (if j < mx then 10 * 2 ^ j else 0)"
    unfolding P'_def by (rule gap_retry[OF Suc.prems(2) le rest])
  show ?case
  proof (cases "succeeds (io e (begun s))")
    case True
    then have "r1 = Return True" "outline s1 = outline s @ [Try u j, Ok]" using an by simp_all
    moreover have "r = r1" "s' = s1" using Suc.prems(3) at \<open>r1 = Return True\<close> unfolding l by simp_all
    ultimately show ?thesis unfolding P using True by simp
  next
    case False
    then have r1: "r1 = Fallthrough" "begun s1 = Suc (begun s)"
      "outline s1 = outline s @ Try u j # Fail # replicate (if j < mx then 10 * 2 ^ j else 0) Nap"
      using an by simp_all
    have restc: "try_attempts e w u mx [Suc j ..< Suc mx] s1 = (r, s')"
      using Suc.prems(3) at r1 unfolding l by simp
    have n: "n = Suc mx - Suc j" using Suc.prems(1) by simp
    have ih: "(r = Return True \<and> outline s' = outline s1 @ spec_schedule ?ok (begun s1) P') \<or>
       (r = Return False \<and> outline s1 @ spec_schedule ?ok (begun s1) P' = outline s' @ spec_schedule ?ok (begun s') rest)"
      using Suc.IH[OF n _ restc] unfolding P'_def by simp
    have sp: "outline s @ spec_schedule ?ok (begun s) ((u, j) # P') = outline s1 @ spec_schedule ?ok (begun s1) P'"
      using False r1 g by simp
    show ?thesis unfolding P sp using ih by blast
  qed
qed

lemma try_fallbacks_ol:
  assumes nc: "cancel_after e = None"
  shows "try_fallbacks e w fs s = (r, s') \<Longrightarrow> list_all (\<lambda>f. url_host f \<noteq> None) fs \<Longrightarrow>
     outline s' = outline s @ spec_schedule (\<lambda>i. succeeds (io e i)) (begun s) (map (\<lambda>f. (f, 1)) fs)"
proof (induction fs arbitrary: s)
  case Nil then show ?case by simp
next
  case (Cons f fs)
  then obtain h where host: "url_host f = Some h" by auto
  let ?ok = "\<lambda>i. succeeds (io e i)"
  let ?s0 = "s\<lparr>checks := Suc (checks s)\<rparr>"
  define rest where "rest = map (\<lambda>f. (f, 1::nat)) fs"
  have rc: "rest = [] \<or> snd (hd rest) = 1" unfolding rest_def by (cases fs) auto
  obtain r1 s1 where td: "try_attempts e w f 1 [1 ..< Suc 1] ?s0 = (r1, s1)" by force
  have td': "try_download e w f 1 ?s0 = (r1, s1)" using td by (simp add: try_download_def)
  have P: "map (\<lambda>f. (f, 1::nat)) (f # fs) = map (\<lambda>k. (f, k)) [1 ..< Suc 1] @ rest"
    by (simp add: rest_def)
  have tn: "(r1 = Return True \<and> outline s1 = outline s @ spec_schedule ?ok (begun s) (map (\<lambda>f. (f, 1)) (f # fs))) \<or>
     (r1 = Return False \<and> outline s @ spec_schedule ?ok (begun s) (map (\<lambda>f. (f, 1)) (f # fs))
          = outline s1 @ spec_schedule ?ok (begun s1) rest)"
    using try_attempts_ol[OF nc host rc _ _ td, of 1] unfolding P by simp
  then show ?case
  proof
    assume a: "r1 = Return True \<and> outline s1 = outline s @ spec_schedule ?ok (begun s) (map (\<lambda>f. (f, 1)) (f # fs))"
    then have "s' = s1" using Cons.prems td' by (simp add: nc_is_cancelled[OF nc])
    then show ?thesis using a by simp
  next
    assume a: "r1 = Return False \<and> outline s @ spec_schedule ?ok (begun s) (map (\<lambda>f. (f, 1)) (f # fs))
          = outline s1 @ spec_schedule ?ok (begun s1) rest"
    then have restc: "try_fallbacks e w fs s1 = (r, s')" using Cons.prems td' by (simp add: nc_is_cancelled[OF nc])
    have la: "list_all (\<lambda>f. url_host f \<noteq> None) fs" using Cons.prems by simp
    show ?thesis using Cons.IH[OF restc la] a unfolding rest_def by simp
  qed
qed

lemma run_body_ol:
  assumes nc: "cancel_after e = None" and host: "url_host (url w) = Some h"
    and hosts: "list_all (\<lambda>f. url_host f \<noteq> None) (fallback_urls w)"
    and rb: "run_body e w s = (r, s')"
  shows "outline s' = outline s @ spec_schedule (\<lambda>i. succeeds (io e i)) (begun s) (plan w)"
proof -
  let ?ok = "\<lambda>i. succeeds (io e i)"
  let ?n = "nat (retry_count w)"
  define F where "F = map (\<lambda>f. (f, 1::nat)) (fallback_urls w)"
  let ?s0 = "emit (Progress (filepath w) (''Starting download: '' @ name w) 0) s"
  let ?s1 = "?s0\<lparr>checks := Suc (checks ?s0)\<rparr>"
  have pl: "plan w = map (\<lambda>k. (url w, k)) [1 ..< Suc ?n] @ F" by (simp add: plan_def F_def)
  have rc: "F = [] \<or> snd (hd F) = 1" unfolding F_def by (cases "fallback_urls w") auto
  obtain r1 s2 where ta: "try_attempts e w (url w) ?n [1 ..< Suc ?n] ?s1 = (r1, s2)" by force
  have td: "try_download e w (url w) (retry_count w) ?s1 = (r1, s2)" using ta by (simp add: try_download_def)
  have tn: "(r1 = Return True \<and> outline s2 = outline s @ spec_schedule ?ok (begun s) (plan w)) \<or>
     (r1 = Return False \<and> outline s @ spec_schedule ?ok (begun s) (plan w)
          = outline s2 @ spec_schedule ?ok (begun s2) F)"
    using try_attempts_ol[OF nc host rc _ _ ta, of "Suc ?n - 1"] unfolding pl by simp
  have body: "run_body e w s =
       (case (r1, s2) of
               (Raise x, s2) \<Rightarrow> (Some x, s2)
             | (Return True, s2) \<Rightarrow> (None, s2)
             | (_, s2) \<Rightarrow>
                 (case is_cancelled e s2 of (c2, s3) \<Rightarrow>
                    if c2 then (None, emit (cancelled_msg w) s3)
                    else
                      (case (if fallback_urls w \<noteq> []
                             then try_fallbacks e w (fallback_urls w)
                                    (emit (Progress (filepath w)
                                       (''Primary URL failed, trying alternatives for: '' @ name w) 0) s3)
                             else (Fallthrough, s3)) of
                         (Raise x, s4) \<Rightarrow> (Some x, s4)
                       | (Return b, s4) \<Rightarrow> (None, s4)
                       | (Fallthrough, s4) \<Rightarrow>
                           (case is_cancelled e s4 of (c3, s5) \<Rightarrow>
                              if \<not> c3
                              then (None,
                                    emit (Finished False (filepath w) ''All download URLs failed'')
                                      (emit (Progress (filepath w) (''All URLs failed for: '' @ name w) 0) s5))
                              else (None, s5)))))"
    using td by (simp add: run_body_def nc_is_cancelled[OF nc])
  from tn show ?thesis
  proof
    assume a: "r1 = Return True \<and> outline s2 = outline s @ spec_schedule ?ok (begun s) (plan w)"
    then have "s' = s2" using rb body by simp
    then show ?thesis using a by simp
  next
    assume a: "r1 = Return False \<and> outline s @ spec_schedule ?ok (begun s) (plan w)
          = outline s2 @ spec_schedule ?ok (begun s2) F"
    let ?s3 = "s2\<lparr>checks := Suc (checks s2)\<rparr>"
    let ?s3' = "emit (Progress (filepath w) (''Primary URL failed, trying alternatives for: '' @ name w) 0) ?s3"
    obtain r4 s4 where fb: "try_fallbacks e w (fallback_urls w) ?s3' = (r4, s4)" by force
    have o4: "outline s4 = outline s2 @ spec_schedule ?ok (begun s2) F"
      using try_fallbacks_ol[OF nc fb hosts] unfolding F_def by simp
    have fbe: "(if fallback_urls w \<noteq> [] then try_fallbacks e w (fallback_urls w) ?s3' else (Fallthrough, ?s3))
               = (r4, if fallback_urls w \<noteq> [] then s4 else ?s3)"
      using fb by (cases "fallback_urls w") simp_all
    let ?s4 = "if fallback_urls w \<noteq> [] then s4 else ?s3"
    have o4': "outline ?s4 = outline s2 @ spec_schedule ?ok (begun s2) F"
      using o4 by (cases "fallback_urls w") (simp_all add: F_def)
    have body2: "(r, s') = (case (r4, ?s4) of
                         (Raise x, s4) \<Rightarrow> (Some x, s4)
                       | (Return b, s4) \<Rightarrow> (None, s4)
                       | (Fallthrough, s4) \<Rightarrow>
                           (case is_cancelled e s4 of (c3, s5) \<Rightarrow>
                              if \<not> c3
                              then (None,
                                    emit (Finished False (filepath w) ''All download URLs failed'')
                                      (emit (Progress (filepath w) (''All URLs failed for: '' @ name w) 0) s5))
                              else (None, s5)))"
      using rb body a fbe by (simp add: nc_is_cancelled[OF nc])
    have "outline s' = outline ?s4"
    proof (cases r4)
      case (Return b) then show ?thesis using body2 by simp
    next
      case (Raise x) then show ?thesis using body2 by simp
    next
      case Fallthrough
      then have "s' = emit (Finished False (filepath w) ''All download URLs failed'')
                 (emit (Progress (filepath w) (''All URLs failed for: '' @ name w) 0)
                    (?s4\<lparr>checks := Suc (checks ?s4)\<rparr>))"
        using body2 by (simp add: nc_is_cancelled[OF nc])
      then show ?thesis by simp
    qed
    then show ?thesis using o4' a by simp
  qed
qed

lemma run_ol:
  assumes nc: "cancel_after e = None" and host: "url_host (url w) = Some h"
    and hosts: "list_all (\<lambda>f. url_host f \<noteq> None) (fallback_urls w)"
  shows "outline (run e w s) = outline s @ spec_schedule (\<lambda>i. succeeds (io e i)) (begun s) (plan w)"
proof -
  obtain r s' where rb: "run_body e w s = (r, s')" by force
  from run_body_nc[OF nc host hosts rb] have "r = None" by simp
  then have "run e w s = s'" using rb by (simp add: run_def)
  then show ?thesis using run_body_ol[OF nc host hosts rb] by simp
qed

lemma np_simps [simp]:
  "naps (s\<lparr>checks := c\<rparr>) = naps s"
  "naps (s\<lparr>begun := c\<rparr>) = naps s"
  "naps (s\<lparr>temps := ts\<rparr>) = naps s"
  "naps (s\<lparr>dest := d\<rparr>) = naps s"
  "naps (warn m s) = naps s"
  "naps (sleep n s) = Suc (naps s)"
  "naps (cleanup_temp a t s) = naps s"
  "naps (append_temp t b s) = naps s"
  "naps (mark_complete t s) = naps s"
  "naps (emit (Progress p m i) s) = naps s"
  "naps (emit (Finished fb p m) s) = naps s"
  "naps (emit (Attempt u k) s) = naps s"
  "naps (emit (Caught x) s) = naps s"
  by (simp_all add: naps_def emit_def warn_def sleep_def cleanup_temp_def append_temp_def mark_complete_def)

lemma st_simps [simp]:
  "begun (s\<lparr>checks := c\<rparr>) = begun s" "now (s\<lparr>checks := c\<rparr>) = now s"
  "now (s\<lparr>begun := c\<rparr>) = now s" "checks (s\<lparr>begun := c\<rparr>) = checks s"
  by simp_all

lemma fr_mono: "n \<le> m \<Longrightarrow> false_reads e n \<le> false_reads e m"
  by (auto simp: false_reads_def split: option.splits)

lemma fr_false: "\<not> cancelled_before e (Suc n) \<Longrightarrow> false_reads e (Suc n) = Suc (false_reads e n)"
  by (auto simp: false_reads_def cancelled_before_def split: option.splits)

lemma paced_refl [simp]: "paced e s s" by (simp add: paced_def)

lemma paced_trans: "paced e s s1 \<Longrightarrow> paced e s1 s2 \<Longrightarrow> paced e s s2"
  by (simp add: paced_def)

lemma paced_read: "paced e s (s\<lparr>checks := Suc (checks s)\<rparr>)"
  using fr_mono[of "checks s" "Suc (checks s)" e] by (simp add: paced_def)

lemma paced_same:
  "checks s' = checks s \<Longrightarrow> naps s' = naps s \<Longrightarrow> begun s' = begun s \<Longrightarrow> now s' = now s \<Longrightarrow>
   paced e s1 s \<Longrightarrow> paced e s1 s'"
  by (simp add: paced_def)

lemma paced_same2:
  "checks s' = checks s \<Longrightarrow> naps s' = naps s \<Longrightarrow> begun s' = begun s \<Longrightarrow> now s' = now s \<Longrightarrow>
   paced e s' s1 \<Longrightarrow> paced e s s1"
  by (simp add: paced_def)

lemma report_progress_paced: "report_progress e w u tot n s = (r, s') \<Longrightarrow> paced e s s'"
  using paced_read[of e s]
  by (auto simp: report_progress_def is_cancelled_eq paced_def split: if_splits option.splits)

lemma receive_paced: "receive e w u tot t bs n s = (r, s') \<Longrightarrow> paced e s s'"
proof (induction bs arbitrary: n s)
  case Nil then show ?case by simp
next
  case (Cons b bs)
  obtain r1 s1 where rp: "report_progress e w u tot (Suc n) (append_temp t b s) = (r1, s1)" by force
  have a: "paced e s s1" using report_progress_paced[OF rp] by (simp add: paced_def)
  show ?case using Cons.prems rp a Cons.IH[of "Suc n" s1] by (auto split: sum.splits intro: paced_trans)
qed

lemma urlretrieve_paced:
  assumes "urlretrieve e w u a t s = (r, s')" shows "paced e s s'"
proof (cases "open_err a")
  case (Some x) then show ?thesis using assms by (simp add: urlretrieve_def)
next
  case None
  let ?s0 = "s\<lparr>temps := AList.update t \<lparr>nbytes = 0, complete = False\<rparr> (temps s)\<rparr>"
  obtain r1 s1 where rp: "report_progress e w u (total_size a) 0 ?s0 = (r1, s1)" by force
  obtain r2 s2 where rc: "receive e w u (total_size a) t (blocks a) 0 s1 = (r2, s2)" by force
  have "paced e s s1" using report_progress_paced[OF rp] by (simp add: paced_def)
  moreover have "paced e s1 s2" using receive_paced[OF rc] .
  ultimately have "paced e s s2" by (rule paced_trans)
  then show ?thesis using assms None rp rc \<open>paced e s s1\<close>
    by (auto simp: urlretrieve_def paced_def split: sum.splits option.splits)
qed

lemma prepare_paced: "prepare e w a t s = (r, s') \<Longrightarrow> paced e s s'"
  by (auto simp: prepare_def paced_def Let_def split: option.splits if_splits)

lemma finish_download_paced: "finish_download e w a t s = (r, s') \<Longrightarrow> paced e s s'"
  using paced_read[of e s]
  by (auto simp: finish_download_def is_cancelled_eq paced_def Let_def split: option.splits if_splits)

lemma paced_step: "paced e s s1 \<Longrightarrow> paced e s (s1\<lparr>checks := Suc (checks s1)\<rparr>)"
  using paced_read paced_trans by blast

lemma paced_emit:
  "paced e s s1 \<Longrightarrow> paced e s (emit (Progress p m i) s1)"
  "paced e s s1 \<Longrightarrow> paced e s (emit (Finished fb p m) s1)"
  "paced e s s1 \<Longrightarrow> paced e s (emit (Caught x) s1)"
  "paced e s s1 \<Longrightarrow> paced e s (cleanup_temp a t s1)"
  by (simp_all add: paced_def)

lemma transfer_paced:
  assumes "transfer e w u a t s = (r, s')" shows "paced e s s'"
proof -
  let ?s0 = "s\<lparr>checks := Suc (checks s)\<rparr>"
  have p0: "paced e s ?s0" by (rule paced_read)
  show ?thesis
  proof (cases "cancelled_before e (Suc (checks s))")
    case True
    then show ?thesis using assms p0 by (auto simp: transfer_def is_cancelled_eq)
  next
    case nc: False
    obtain r1 s1 where ur: "urlretrieve e w u a t ?s0 = (r1, s1)" by force
    have p1: "paced e s s1" using urlretrieve_paced[OF ur] p0 paced_trans by blast
    show ?thesis
    proof (cases r1)
      case (Inl x)
      have "paced e s ((cleanup_temp a t s1)\<lparr>checks := Suc (checks (cleanup_temp a t s1))\<rparr>)"
        by (rule paced_step) (rule paced_emit(4)[OF p1])
      then show ?thesis using assms nc ur Inl
        by (auto simp: transfer_def is_cancelled_eq split: if_splits)
    next
      case (Inr y)
      let ?s2 = "s1\<lparr>checks := Suc (checks s1)\<rparr>"
      have p2: "paced e s ?s2" by (rule paced_step[OF p1])
      show ?thesis
      proof (cases "cancelled_before e (Suc (checks s1))")
        case True
        have "paced e s (cleanup_temp a t ?s2)" by (rule paced_emit(4)[OF p2])
        then show ?thesis using assms nc ur Inr True
          by (auto simp: transfer_def is_cancelled_eq split: if_splits)
      next
        case False
        obtain r2 s2 where fd: "finish_download e w a t ?s2 = (r2, s2)" by force
        have p3: "paced e s s2" using finish_download_paced[OF fd] p2 paced_trans by blast
        have p4: "paced e s ((cleanup_temp a t s2)\<lparr>checks := Suc (checks (cleanup_temp a t s2))\<rparr>)"
          by (rule paced_step) (rule paced_emit(4)[OF p3])
        show ?thesis using assms nc ur Inr False fd p3 p4
          by (cases r2) (auto simp: transfer_def is_cancelled_eq split: if_splits)
      qed
    qed
  qed
qed

lemma backoff_paced: "backoff e b st s = (r, s') \<Longrightarrow> paced e s s'"
proof (induction e b st s arbitrary: r s' rule: backoff.induct)
  case (1 e b st s)
  show ?case
  proof (cases "now s - st < b")
    case False
    then show ?thesis using "1.prems" by (simp add: backoff.simps[of e b st s])
  next
    case True
    note t = this
    let ?s1 = "s\<lparr>checks := Suc (checks s)\<rparr>"
    show ?thesis
    proof (cases "cancelled_before e (Suc (checks s))")
      case True
      then show ?thesis using "1.prems" t paced_read[of e s]
        by (auto simp: backoff.simps[of e b st s] is_cancelled_eq)
    next
      case False
      have ic: "is_cancelled e s = (False, ?s1)" using False by (simp add: is_cancelled_eq)
      have eq: "backoff e b st (sleep 100 ?s1) = (r, s')"
        using "1.prems" t False by (simp add: backoff.simps[of e b st s] is_cancelled_eq)
      have ih: "paced e (sleep 100 ?s1) s'"
        by (rule "1.IH"[OF t ic[symmetric] _ eq]) simp
      have "paced e s (sleep 100 ?s1)" using fr_false[OF False] by (simp add: paced_def)
      then show ?thesis using ih by (rule paced_trans)
    qed
  qed
qed

lemma handle_failure_paced:
  assumes "handle_failure e w u k mx x s = (r, s')"
  shows "paced e s s'"
proof -
  let ?s1 = "(emit (Caught x) s)\<lparr>checks := Suc (checks s)\<rparr>"
  have p1: "paced e s ?s1" using paced_read[of e s] by (simp add: paced_def)
  show ?thesis
  proof (cases "cancelled_before e (Suc (checks s))")
    case True
    then show ?thesis using assms p1 by (auto simp: handle_failure_def is_cancelled_eq)
  next
    case False
    show ?thesis
    proof (cases "url_host u")
      case None
      then show ?thesis using assms False p1 by (auto simp: handle_failure_def is_cancelled_eq)
    next
      case (Some h)
      show ?thesis
      proof (cases "k < mx")
        case lt: True
        let ?s2 = "emit (Progress (filepath w)
                     (''Retry '' @ show_nat k @ ''/'' @ show_nat mx @ '' from '' @ h @ '': '' @ name w) 0) ?s1"
        have "backoff e (1000 * 2 ^ k) (now ?s2) ?s2 = (r, s')"
          using assms False Some lt by (simp add: handle_failure_def is_cancelled_eq Let_def)
        from backoff_paced[OF this] have "paced e ?s2 s'" .
        moreover have "paced e s ?s2" by (rule paced_emit(1)[OF p1])
        ultimately show ?thesis using paced_trans by blast
      next
        case nlt: False
        have "paced e s (emit (Progress (filepath w) (''Failed from '' @ h @ '': '' @ name w) 0) ?s1)"
          by (rule paced_emit(1)[OF p1])
        then show ?thesis using assms False Some nlt
          by (auto simp: handle_failure_def is_cancelled_eq)
      qed
    qed
  qed
qed

lemma attempt_paced:
  assumes "attempt e w u k mx s = (r, s')"
  shows "paced e s s'"
proof (cases "cancelled_before e (Suc (checks s))")
  case True
  then show ?thesis using assms paced_read[of e s] by (auto simp: attempt_def is_cancelled_eq)
next
  case False
  let ?s0 = "s\<lparr>checks := Suc (checks s)\<rparr>"
  let ?s1 = "emit (Attempt u k) (?s0\<lparr>begun := Suc (begun ?s0)\<rparr>)"
  let ?a = "io e (begun s)"
  have p1: "paced e s ?s1" using fr_false[OF False] by (simp add: paced_def)
  obtain r2 s2 where pr: "prepare e w ?a (begun s) ?s1 = (r2, s2)" by force
  have p2: "paced e s s2" using prepare_paced[OF pr] p1 paced_trans by blast
  show ?thesis
  proof (cases r2)
    case (Inl x)
    obtain r3 s3 where hf: "handle_failure e w u k mx x s2 = (r3, s3)" by force
    have "r = r3" "s' = s3" using assms False pr Inl hf by (auto simp: attempt_def is_cancelled_eq Let_def)
    then show ?thesis using handle_failure_paced[OF hf] p2 paced_trans by blast
  next
    case (Inr t)
    obtain r3 s3 where tr: "transfer e w u ?a t s2 = (r3, s3)" by force
    have p3: "paced e s s3" using transfer_paced[OF tr] p2 paced_trans by blast
    show ?thesis
    proof (cases r3)
      case (Return b')
      then have "s' = s3" using assms False pr Inr tr by (auto simp: attempt_def is_cancelled_eq Let_def)
      then show ?thesis using p3 by simp
    next
      case (Raise x)
      obtain r4 s4 where hf: "handle_failure e w u k mx x s3 = (r4, s4)" by force
      have "s' = s4" using assms False pr Inr tr Raise hf by (auto simp: attempt_def is_cancelled_eq Let_def)
      then show ?thesis using handle_failure_paced[OF hf] p3 paced_trans by blast
    next
      case Fallthrough
      then have "s' = s3" using assms False pr Inr tr by (auto simp: attempt_def is_cancelled_eq Let_def)
      then show ?thesis using p3 by simp
    qed
  qed
qed

lemma try_attempts_paced: "try_attempts e w u mx ks s = (r, s') \<Longrightarrow> paced e s s'"
proof (induction ks arbitrary: s)
  case Nil then show ?case by auto
next
  case (Cons k ks)
  obtain r1 s1 where at: "attempt e w u k mx s = (r1, s1)" by force
  note p1 = attempt_paced[OF at]
  show ?case
  proof (cases "r1 = Fallthrough")
    case True
    have "try_attempts e w u mx ks s1 = (r, s')" using Cons.prems at True by simp
    from Cons.IH[OF this] show ?thesis using p1 paced_trans by blast
  next
    case False
    then have "s' = s1" using Cons.prems at by (auto split: flow.splits)
    then show ?thesis using p1 by simp
  qed
qed

lemma try_download_paced: "try_download e w u m s = (r, s') \<Longrightarrow> paced e s s'"
  unfolding try_download_def by (rule try_attempts_paced)

lemma try_fallbacks_paced: "try_fallbacks e w fs s = (r, s') \<Longrightarrow> paced e s s'"
proof (induction fs arbitrary: s)
  case Nil then show ?case by simp
next
  case (Cons f fs)
  let ?s0 = "s\<lparr>checks := Suc (checks s)\<rparr>"
  have p0: "paced e s ?s0" by (rule paced_read)
  show ?case
  proof (cases "cancelled_before e (Suc (checks s))")
    case True
    then have "s' = emit (cancelled_msg w) ?s0" using Cons.prems by (auto simp: is_cancelled_eq)
    then show ?thesis using paced_emit(1)[OF p0] by (simp add: cancelled_msg_def)
  next
    case False
    obtain r1 s1 where td: "try_download e w f 1 ?s0 = (r1, s1)" by force
    have p1: "paced e s s1" using try_download_paced[OF td] p0 paced_trans by blast
    show ?thesis
    proof (cases "r1 = Return True \<or> (\<exists>x. r1 = Raise x)")
      case True
      then have "s' = s1" using Cons.prems False td by (auto simp: is_cancelled_eq)
      then show ?thesis using p1 by simp
    next
      case nr: False
      have "try_fallbacks e w fs s1 = (r, s')" using Cons.prems False td nr
        by (cases r1) (auto simp: is_cancelled_eq split: bool.splits)
      from Cons.IH[OF this] show ?thesis using p1 paced_trans by blast
    qed
  qed
qed

lemma run_body_paced:
  assumes "run_body e w s = (r, s')"
  shows "paced e s s'"
proof -
  let ?s0 = "emit (Progress (filepath w) (''Starting download: '' @ name w) 0) s"
  let ?s1 = "?s0\<lparr>checks := Suc (checks ?s0)\<rparr>"
  have p1: "paced e s ?s1" by (rule paced_step) (rule paced_emit(1)[OF paced_refl])
  show ?thesis
  proof (cases "cancelled_before e (Suc (checks s))")
    case True
    then have "s' = emit (cancelled_msg w) ?s1"
      using assms by (auto simp: run_body_def is_cancelled_eq)
    then show ?thesis using paced_emit(1)[OF p1] by (simp add: cancelled_msg_def)
  next
    case nc: False
    obtain r1 s2 where td: "try_download e w (url w) (retry_count w) ?s1 = (r1, s2)" by force
    have p2: "paced e s s2" using try_download_paced[OF td] p1 paced_trans by blast
    have body: "run_body e w s =
       (case (r1, s2) of
               (Raise x, s2) \<Rightarrow> (Some x, s2)
             | (Return True, s2) \<Rightarrow> (None, s2)
             | (_, s2) \<Rightarrow>
                 (case is_cancelled e s2 of (c2, s3) \<Rightarrow>
                    if c2 then (None, emit (cancelled_msg w) s3)
                    else
                      (case (if fallback_urls w \<noteq> []
                             then try_fallbacks e w (fallback_urls w)
                                    (emit (Progress (filepath w)
                                       (''Primary URL failed, trying alternatives for: '' @ name w) 0) s3)
                             else (Fallthrough, s3)) of
                         (Raise x, s4) \<Rightarrow> (Some x, s4)
                       | (Return b, s4) \<Rightarrow> (None, s4)
                       | (Fallthrough, s4) \<Rightarrow>
                           (case is_cancelled e s4 of (c3, s5) \<Rightarrow>
                              if \<not> c3
                              then (None,
                                    emit (Finished False (filepath w) ''All download URLs failed'')
                                      (emit (Progress (filepath w) (''All URLs failed for: '' @ name w) 0) s5))
                              else (None, s5)))))"
      using nc td by (simp add: run_body_def is_cancelled_eq)
    show ?thesis
    proof (cases "r1 = Return True \<or> (\<exists>x. r1 = Raise x)")
      case True
      then have "s' = s2" using assms body by auto
      then show ?thesis using p2 by simp
    next
      case nr: False
      let ?s3 = "s2\<lparr>checks := Suc (checks s2)\<rparr>"
      have p3: "paced e s ?s3" by (rule paced_step[OF p2])
      show ?thesis
      proof (cases "cancelled_before e (Suc (checks s2))")
        case True
        then have "s' = emit (cancelled_msg w) ?s3"
          using assms body nr by (cases r1; auto simp: is_cancelled_eq split: bool.splits)
        then show ?thesis using paced_emit(1)[OF p3] by (simp add: cancelled_msg_def)
      next
        case nc2: False
        let ?s3' = "emit (Progress (filepath w) (''Primary URL failed, trying alternatives for: '' @ name w) 0) ?s3"
        obtain r4 s4 where fb: "(if fallback_urls w \<noteq> [] then try_fallbacks e w (fallback_urls w) ?s3'
                                  else (Fallthrough, ?s3)) = (r4, s4)" by force
        have body2: "(r, s') = (case (r4, s4) of
                       (Raise x, s4) \<Rightarrow> (Some x, s4)
                     | (Return b, s4) \<Rightarrow> (None, s4)
                     | (Fallthrough, s4) \<Rightarrow>
                         (case is_cancelled e s4 of (c3, s5) \<Rightarrow>
                            if \<not> c3
                            then (None,
                                  emit (Finished False (filepath w) ''All download URLs failed'')
                                    (emit (Progress (filepath w) (''All URLs failed for: '' @ name w) 0) s5))
                            else (None, s5)))"
          using assms body nr nc2 fb by (cases r1; simp add: is_cancelled_eq split: bool.splits)
        have p3': "paced e s ?s3'" by (rule paced_emit(1)[OF p3])
        have p4: "paced e s s4"
        proof (cases "fallback_urls w \<noteq> []")
          case True
          then have "try_fallbacks e w (fallback_urls w) ?s3' = (r4, s4)" using fb by simp
          from try_fallbacks_paced[OF this] show ?thesis using p3' paced_trans by blast
        next
          case False
          then show ?thesis using fb p3 by auto
        qed
        have p5: "paced e s (s4\<lparr>checks := Suc (checks s4)\<rparr>)" by (rule paced_step[OF p4])
        have p6: "paced e s (emit (Finished False (filepath w) ''All download URLs failed'')
                    (emit (Progress (filepath w) (''All URLs failed for: '' @ name w) 0) (s4\<lparr>checks := Suc (checks s4)\<rparr>)))"
          by (rule paced_emit(2)) (rule paced_emit(1)[OF p5])
        show ?thesis
        proof (cases r4)
          case (Return b') then show ?thesis using body2 p4 by auto
        next
          case (Raise x) then show ?thesis using body2 p4 by auto
        next
          case Fallthrough
          then show ?thesis using body2 p5 p6 by (auto simp: is_cancelled_eq split: if_splits)
        qed
      qed
    qed
  qed
qed

lemma run_paced: "paced e s (run e w s)"
proof -
  obtain r s1 where rb: "run_body e w s = (r, s1)" by force
  note p1 = run_body_paced[OF rb]
  have p2: "paced e s (s1\<lparr>checks := Suc (checks s1)\<rparr>)" by (rule paced_step[OF p1])
  have p3: "paced e s (emit (Finished False (filepath w) (''Thread error: '' @ x))
                    (emit (Progress (filepath w) (''Error in download thread: '' @ name w) 0)
                       (s1\<lparr>checks := Suc (checks s1)\<rparr>)))" for x
    by (rule paced_emit(2)) (rule paced_emit(1)[OF p2])
  show ?thesis using rb p1 p2 p3 by (cases r) (auto simp: run_def is_cancelled_eq)
qed

lemma fr_le: "cancel_after e = Some c \<Longrightarrow> false_reads e n \<le> c"
  by (simp add: false_reads_def)

lemma run_after_cancel:
  "cancel_after e = Some c \<Longrightarrow> naps (run e w init_state) + begun (run e w init_state) \<le> c"
  using run_paced[of e init_state w] fr_le[of e c "checks (run e w init_state)"]
  by (simp add: paced_def init_state_def naps_def false_reads_def)

lemma run_clock: "now (run e w init_state) = 100 * naps (run e w init_state)"
  using run_paced[of e init_state w] by (simp add: paced_def init_state_def naps_def)


section \<open>Runs that differ in the permission step only\<close>

lemma agree_refl [simp]: "agree p p" by (simp add: agree_def)

lemma co_is_cancelled [simp]: "is_cancelled (chmod_outcome x win e) s = is_cancelled e s"
  by (simp add: is_cancelled_def chmod_outcome_def)

lemma co_fields [simp]:
  "IS_LINUX (chmod_outcome x win e) = IS_LINUX e"
  "cancel_after (chmod_outcome x win e) = cancel_after e"
  "io (chmod_outcome x win e) i = (io e i)\<lparr>chmod_file_err := x i\<rparr>"
  by (simp_all add: chmod_outcome_def)

lemma co_report_progress [simp]:
  "report_progress (chmod_outcome x win e) w u tot n s = report_progress e w u tot n s"
  by (simp add: report_progress_def split: prod.splits)

lemma co_receive [simp]:
  "receive (chmod_outcome x win e) w u tot t bs n s = receive e w u tot t bs n s"
  by (induction bs arbitrary: n s) (simp_all split: prod.splits sum.splits)

lemma co_urlretrieve [simp]:
  "urlretrieve (chmod_outcome x win e) w u (a\<lparr>chmod_file_err := y\<rparr>) t s = urlretrieve e w u a t s"
  by (simp add: urlretrieve_def split: option.splits prod.splits sum.splits)

lemma co_prepare [simp]:
  "prepare (chmod_outcome x win e) w (a\<lparr>chmod_file_err := y\<rparr>) t s = prepare e w a t s"
  by (simp add: prepare_def Let_def split: option.splits)

lemma co_cleanup [simp]: "cleanup_temp (a\<lparr>chmod_file_err := y\<rparr>) t s = cleanup_temp a t s"
  by (simp add: cleanup_temp_def)

lemma co_backoff [simp]: "backoff (chmod_outcome x win e) b st s = backoff e b st s"
proof (induction e b st s rule: backoff.induct)
  case (1 e b st s)
  show ?case
  proof (cases "now s - st < b")
    case False
    then show ?thesis by (simp add: backoff.simps[of _ b st s])
  next
    case True
    obtain c s1 where ic: "is_cancelled e s = (c, s1)" by force
    show ?thesis
    proof (cases c)
      case True
      then show ?thesis using ic \<open>now s - st < b\<close> by (simp add: backoff.simps[of _ b st s])
    next
      case False
      have "backoff (chmod_outcome x win e) b st (sleep 100 s1) = backoff e b st (sleep 100 s1)"
        using "1.IH"[OF True ic[symmetric]] False by simp
      then show ?thesis using ic False True by (simp add: backoff.simps[of _ b st s])
    qed
  qed
qed

lemma co_handle_failure [simp]:
  "handle_failure (chmod_outcome x win e) w u k mx m s = handle_failure e w u k mx m s"
  by (simp add: handle_failure_def Let_def split: prod.splits option.splits)

lemma erase_simps [simp]:
  "erase (warn m s) = erase s" "erase (emit ev s) = emit ev (erase s)"
  "erase (s\<lparr>checks := c\<rparr>) = (erase s)\<lparr>checks := c\<rparr>"
  by (simp_all add: erase_def warn_def emit_def)

lemma co_finish_download:
  "agree (finish_download (chmod_outcome x win e) w (a\<lparr>chmod_file_err := y\<rparr>) t s)
         (finish_download e w a t s)"
proof (cases "map_of (temps s) t")
  case None
  then show ?thesis by (simp add: finish_download_def)
next
  case (Some f)
  show ?thesis
  proof (cases "nbytes f = 0 \<or> mkdir2_err a \<noteq> None \<or> move_err a \<noteq> None")
    case True
    then have "finish_download (chmod_outcome x win e) w (a\<lparr>chmod_file_err := y\<rparr>) t s
             = finish_download e w a t s"
      using Some by (auto simp: finish_download_def split: option.splits)
    then show ?thesis by simp
  next
    case False
    then show ?thesis using Some
      by (simp add: finish_download_def agree_def Let_def is_cancelled_def chmod_outcome_def
            erase_def warn_def emit_def split: option.splits)
  qed
qed

lemma co_transfer:
  "agree (transfer (chmod_outcome x win e) w u (a\<lparr>chmod_file_err := y\<rparr>) t s) (transfer e w u a t s)"
proof -
  obtain c0 s0 where i0: "is_cancelled e s = (c0, s0)" by force
  obtain r1 s1 where ur: "urlretrieve e w u a t s0 = (r1, s1)" by force
  obtain c1 s2 where i1: "is_cancelled e s1 = (c1, s2)" by force
  obtain r2 s3 where fd: "finish_download e w a t s2 = (r2, s3)" by force
  obtain r2' s3' where fd': "finish_download (chmod_outcome x win e) w (a\<lparr>chmod_file_err := y\<rparr>) t s2 = (r2', s3')" by force
  have ag: "r2' = r2 \<and> erase s3' = erase s3 \<and> (r2 \<noteq> Return True \<longrightarrow> s3' = s3)"
    using co_finish_download[of x win e w y a t s2] fd fd' by (simp add: agree_def)
  show ?thesis
  proof (cases "c0 \<or> (\<exists>m. r1 = Inl m) \<or> c1")
    case True
    then show ?thesis using i0 ur i1 by (auto simp: transfer_def split: sum.splits)
  next
    case False
    then obtain y where "\<not> c0" "r1 = Inr y" "\<not> c1" by (cases r1) auto
    then show ?thesis using i0 ur i1 fd fd' ag
      by (cases r2) (auto simp: transfer_def agree_def split: prod.splits)
  qed
qed

lemma co_attempt:
  "agree (attempt (chmod_outcome x win e) w u k mx s) (attempt e w u k mx s)"
proof -
  obtain c s0 where i0: "is_cancelled e s = (c, s0)" by force
  let ?a = "io e (begun s0)"
  let ?s1 = "emit (Attempt u k) (s0\<lparr>begun := Suc (begun s0)\<rparr>)"
  obtain r2 s2 where pr: "prepare e w ?a (begun s0) ?s1 = (r2, s2)" by force
  show ?thesis
  proof (cases c)
    case True
    then show ?thesis using i0 by (simp add: attempt_def)
  next
    case False
    show ?thesis
    proof (cases r2)
      case (Inl m)
      then show ?thesis using i0 False pr by (simp add: attempt_def Let_def)
    next
      case (Inr t)
      obtain r3 s3 where tr: "transfer e w u ?a t s2 = (r3, s3)" by force
      obtain r3' s3' where tr': "transfer (chmod_outcome x win e) w u (?a\<lparr>chmod_file_err := x (begun s0)\<rparr>) t s2 = (r3', s3')" by force
      have ag: "r3' = r3 \<and> erase s3' = erase s3 \<and> (r3 \<noteq> Return True \<longrightarrow> s3' = s3)"
        using co_transfer[of x win e w u "x (begun s0)" ?a t s2] tr tr' by (simp add: agree_def)
      show ?thesis using i0 False pr Inr tr tr' ag
        by (cases r3) (auto simp: attempt_def Let_def agree_def split: bool.splits)
    qed
  qed
qed

lemma co_try_attempts:
  "agree (try_attempts (chmod_outcome x win e) w u mx ks s) (try_attempts e w u mx ks s)"
proof (induction ks arbitrary: s)
  case Nil then show ?case by simp
next
  case (Cons k ks)
  obtain r1 s1 where at: "attempt e w u k mx s = (r1, s1)" by force
  obtain r1' s1' where at': "attempt (chmod_outcome x win e) w u k mx s = (r1', s1')" by force
  have ag: "r1' = r1 \<and> erase s1' = erase s1 \<and> (r1 \<noteq> Return True \<longrightarrow> s1' = s1)"
    using co_attempt[of x win e w u k mx s] at at' by (simp add: agree_def)
  show ?case using at at' ag Cons.IH[of s1]
    by (cases r1) (auto simp: agree_def split: bool.splits)
qed

lemma co_try_download:
  "agree (try_download (chmod_outcome x win e) w u m s) (try_download e w u m s)"
  by (simp add: try_download_def co_try_attempts)

lemma co_try_fallbacks:
  "agree (try_fallbacks (chmod_outcome x win e) w fs s) (try_fallbacks e w fs s)"
proof (induction fs arbitrary: s)
  case Nil then show ?case by simp
next
  case (Cons f fs)
  obtain c s0 where i0: "is_cancelled e s = (c, s0)" by force
  obtain r1 s1 where td: "try_download e w f 1 s0 = (r1, s1)" by force
  obtain r1' s1' where td': "try_download (chmod_outcome x win e) w f 1 s0 = (r1', s1')" by force
  have ag: "r1' = r1 \<and> erase s1' = erase s1 \<and> (r1 \<noteq> Return True \<longrightarrow> s1' = s1)"
    using co_try_download[of x win e w f 1 s0] td td' by (simp add: agree_def)
  show ?case
  proof (cases c)
    case True then show ?thesis using i0 by simp
  next
    case False
    then show ?thesis using i0 td td' ag Cons.IH[of s1]
      by (cases r1) (auto simp: agree_def split: bool.splits)
  qed
qed

lemma co_run_body:
  "fst (run_body (chmod_outcome x win e) w s) = fst (run_body e w s) \<and>
   erase (snd (run_body (chmod_outcome x win e) w s)) = erase (snd (run_body e w s)) \<and>
   (fst (run_body e w s) \<noteq> None \<longrightarrow>
      snd (run_body (chmod_outcome x win e) w s) = snd (run_body e w s))"
proof -
  let ?e' = "chmod_outcome x win e"
  let ?s0 = "emit (Progress (filepath w) (''Starting download: '' @ name w) 0) s"
  obtain c s1 where i0: "is_cancelled e ?s0 = (c, s1)" by force
  obtain r1 s2 where td: "try_download e w (url w) (retry_count w) s1 = (r1, s2)" by force
  obtain r1' s2' where td': "try_download ?e' w (url w) (retry_count w) s1 = (r1', s2')" by force
  have ag: "r1' = r1 \<and> erase s2' = erase s2 \<and> (r1 \<noteq> Return True \<longrightarrow> s2' = s2)"
    using co_try_download[of x win e w "url w" "retry_count w" s1] td td' by (simp add: agree_def)
  obtain c2 s3 where i2: "is_cancelled e s2 = (c2, s3)" by force
  let ?s3' = "emit (Progress (filepath w) (''Primary URL failed, trying alternatives for: '' @ name w) 0) s3"
  obtain r4 s4 where fb: "(if fallback_urls w \<noteq> [] then try_fallbacks e w (fallback_urls w) ?s3'
                            else (Fallthrough, s3)) = (r4, s4)" by force
  obtain r4' s4' where fb': "(if fallback_urls w \<noteq> [] then try_fallbacks ?e' w (fallback_urls w) ?s3'
                            else (Fallthrough, s3)) = (r4', s4')" by force
  have ag4: "r4' = r4 \<and> erase s4' = erase s4 \<and> (r4 \<noteq> Return True \<longrightarrow> s4' = s4)"
    using co_try_fallbacks[of x win e w "fallback_urls w" ?s3'] fb fb'
    by (cases "fallback_urls w \<noteq> []") (auto simp: agree_def)
  obtain c3 s5 where i4: "is_cancelled e s4 = (c3, s5)" by force
  have tail: "(case (r4', s4') of
                   (Raise x, s4) \<Rightarrow> (Some x, s4)
                 | (Return b, s4) \<Rightarrow> (None, s4)
                 | (Fallthrough, s4) \<Rightarrow>
                     (case is_cancelled ?e' s4 of (c3, s5) \<Rightarrow>
                        if \<not> c3
                        then (None,
                              emit (Finished False (filepath w) ''All download URLs failed'')
                                (emit (Progress (filepath w) (''All URLs failed for: '' @ name w) 0) s5))
                        else (None, s5))) = (q', t') \<Longrightarrow>
              (case (r4, s4) of
                   (Raise x, s4) \<Rightarrow> (Some x, s4)
                 | (Return b, s4) \<Rightarrow> (None, s4)
                 | (Fallthrough, s4) \<Rightarrow>
                     (case is_cancelled e s4 of (c3, s5) \<Rightarrow>
                        if \<not> c3
                        then (None,
                              emit (Finished False (filepath w) ''All download URLs failed'')
                                (emit (Progress (filepath w) (''All URLs failed for: '' @ name w) 0) s5))
                        else (None, s5))) = (q, t) \<Longrightarrow>
              q' = q \<and> erase t' = erase t \<and> (q \<noteq> None \<longrightarrow> t' = t)" for q' t' q t
    using ag4 i4 by (cases r4) (auto split: if_splits)
  obtain q t where T: "(case (r4, s4) of
                   (Raise x, s4) \<Rightarrow> (Some x, s4)
                 | (Return b, s4) \<Rightarrow> (None, s4)
                 | (Fallthrough, s4) \<Rightarrow>
                     (case is_cancelled e s4 of (c3, s5) \<Rightarrow>
                        if \<not> c3
                        then (None,
                              emit (Finished False (filepath w) ''All download URLs failed'')
                                (emit (Progress (filepath w) (''All URLs failed for: '' @ name w) 0) s5))
                        else (None, s5))) = (q, t)" by force
  obtain q' t' where T': "(case (r4', s4') of
                   (Raise x, s4) \<Rightarrow> (Some x, s4)
                 | (Return b, s4) \<Rightarrow> (None, s4)
                 | (Fallthrough, s4) \<Rightarrow>
                     (case is_cancelled ?e' s4 of (c3, s5) \<Rightarrow>
                        if \<not> c3
                        then (None,
                              emit (Finished False (filepath w) ''All download URLs failed'')
                                (emit (Progress (filepath w) (''All URLs failed for: '' @ name w) 0) s5))
                        else (None, s5))) = (q', t')" by force
  note tl = tail[OF T' T]
  show ?thesis
  proof (cases c)
    case True
    then show ?thesis using i0 by (simp add: run_body_def)
  next
    case nc: False
    show ?thesis
    proof (cases "r1 = Return True \<or> (\<exists>m. r1 = Raise m)")
      case True
      then show ?thesis using i0 nc td td' ag by (auto simp: run_body_def)
    next
      case False
      then have eq: "s2' = s2" "r1' = r1" using ag by auto
      show ?thesis
      proof (cases c2)
        case True
        then show ?thesis using i0 nc td td' eq i2 False
          by (cases r1) (auto simp: run_body_def split: bool.splits)
      next
        case nc2: False
        have 1: "run_body e w s = (q, t)"
          using i0 nc td i2 nc2 fb T False by (cases r1) (auto simp: run_body_def split: bool.splits)
        have 2: "run_body ?e' w s = (q', t')"
          using i0 nc td' eq i2 nc2 fb' T' False by (cases r1) (auto simp: run_body_def split: bool.splits)
        show ?thesis unfolding 1 2 using tl by simp
      qed
    qed
  qed
qed

lemma co_run: "erase (run (chmod_outcome x win e) w s) = erase (run e w s)"
proof -
  obtain q t where rb: "run_body e w s = (q, t)" by force
  obtain q' t' where rb': "run_body (chmod_outcome x win e) w s = (q', t')" by force
  have ag: "q' = q \<and> erase t' = erase t \<and> (q \<noteq> None \<longrightarrow> t' = t)"
    using co_run_body[of x win e w s] rb rb' by simp
  show ?thesis
  proof (cases q)
    case None
    then show ?thesis using rb rb' ag by (simp add: run_def)
  next
    case (Some m)
    then show ?thesis using rb rb' ag by (simp add: run_def split: prod.splits)
  qed
qed

lemma erase_fields:
  "erase s' = erase s \<Longrightarrow>
     log s' = log s \<and> dest s' = dest s \<and> temps s' = temps s \<and> checks s' = checks s \<and>
     begun s' = begun s \<and> now s' = now s"
  unfolding erase_def by (cases s, cases s') simp


section \<open>The controller's bookkeeping\<close>

lemma same_session_refl [simp]: "same_session g g" by (simp add: same_session_def)



lemma paths_of_simps [simp]:
  "paths_of [] = []" "paths_of ((u, p, fb) # rest) = p # paths_of rest"
  by (simp_all add: paths_of_def)

























section \<open>Temporary files\<close>

text \<open>
  Claim C1, at the input where the controller sets the flag after the worker has passed
  the checks of lines 155 and 198 and before it reaches the check of line 246: the attempt
  has created its temporary file, returns at line 247 without removing it, and the run
  ends with that file still in the temporary directory, nothing at the destination and no
  \<^verbatim>\<open>finished\<close> signal. The sibling exits of lines 253-259 and 285-294 remove the file.
\<close>

theorem temp_file_left_behind_on_early_cancel:
  "temps (run (env_of (Some 2) all_ok) sample_worker init_state)
     = [(0, \<lparr>nbytes = 0, complete = False\<rparr>)]
   \<and> dest (run (env_of (Some 2) all_ok) sample_worker init_state) = None
   \<and> finished_events (run (env_of (Some 2) all_ok) sample_worker init_state) = []"
  by code_simp


section \<open>How many \<^verbatim>\<open>finished\<close> signals a job emits\<close>

text \<open>
  Claim C2 as stated fails: at the input where the flag is set while the first transfer is
  under way (the worker's fifth read of the flag, in the progress hook after the first
  block, sees it set), the job has begun an attempt and written to its temporary file, and
  it ends without any \<^verbatim>\<open>finished\<close> signal.
\<close>

theorem cancelled_in_flight_emits_no_finished:
  "finished_events (run (env_of (Some 4) all_ok) sample_worker init_state) = []
   \<and> outline (run (env_of (Some 4) all_ok) sample_worker init_state)
       = [Try ''https://sound-effects.bbcrewind.co.uk/assets/07076051.wav'' 1]
   \<and> dest (run (env_of (Some 4) all_ok) sample_worker init_state) = None"
  by code_simp

text \<open>
  Claim C2 as amended: every job emits at most one \<^verbatim>\<open>finished\<close> signal; it emits exactly
  one when no read of the cancellation flag during the run sees it set, and none when some
  read sees it set, be that before the first attempt or while an attempt is in flight.
  Cancellation never surfaces as a terminal signal of any kind.
\<close>

theorem finished_signal_count:
  "length (finished_events (run e w init_state)) = (if seen e (run e w init_state) then 0 else 1)"
proof -
  let ?s = "run e w init_state"
  have "settled e w init_state ?s" by (rule run_settled)
  then consider (g) "good e w init_state ?s" | (c) "silent init_state ?s" "seen e ?s"
    | (f) "\<not> seen e ?s" "\<exists>m. finished_events ?s = finished_events init_state @ [Finished False (filepath w) m]"
    unfolding settled_def by blast
  then show ?thesis
  proof cases
    case g
    then have "finished_events ?s = (if seen e ?s then [] else [Finished True (filepath w) ''''])"
      by (simp add: good_def fe_init)
    then show ?thesis by simp
  next
    case c
    then show ?thesis by (simp add: silent_def fe_init)
  next
    case f
    then show ?thesis by (auto simp: fe_init)
  qed
qed

theorem finished_signal_count_witness:
  "length (finished_events (run (env_of None all_ok) sample_worker init_state)) = 1
   \<and> length (finished_events (run (env_of (Some 0) all_ok) sample_worker init_state)) = 0"
  using finished_signal_count[of "env_of None all_ok" sample_worker]
        finished_signal_count[of "env_of (Some 0) all_ok" sample_worker]
  by (simp add: seen_def cancelled_before_def env_of_def run_def run_body_def is_cancelled_def
        emit_def init_state_def cancelled_msg_def)


section \<open>When an attempt succeeds\<close>

text \<open>
  Claim C7 as stated fails: at the input where the transfer completes with 5 bytes,
  nothing is cancelled, and \<^verbatim>\<open>shutil.move\<close> raises (permission denied at the destination),
  the attempt does not succeed.
\<close>

theorem completed_transfer_fails_on_move:
  "fst (attempt (env_of None move_denied) single_try_worker (url single_try_worker) 1 1 init_state)
     \<noteq> Return True
   \<and> open_err (move_denied 0) = None \<and> read_err (move_denied 0) = None
   \<and> sum_list (blocks (move_denied 0)) = 5
   \<and> cancel_after (env_of None move_denied) = None"
  by (simp add: attempt_exact succeeds_def env_of_def move_denied_def ok_io_def init_state_def)

text \<open>
  Claim C7 as amended: an attempt succeeds (returns True) if and only if every call on the
  way returns (creating the directory, building the request, creating the temporary
  file, the transfer, creating the directory again, the move onto the destination), the
  transfer delivers at least one byte, the progress hook can name the host, and none of
  the reads of the flag up to the one right after the transfer sees it set (there are
  four of them plus one per block). Hence a job that reported success has a complete,
  non-empty file at its destination when the run is over.
\<close>

theorem attempt_succeeds_iff:
  "(fst (attempt e w u k mx s) = Return True \<longleftrightarrow>
      succeeds (io e (begun s)) \<and> hook_ok u (io e (begun s)) \<and>
      \<not> cancelled_before e (checks s + length (blocks (io e (begun s))) + 4))
   \<and> (Finished True p m \<in> set (log (run e w init_state)) \<longrightarrow>
        (\<exists>f. dest (run e w init_state) = Some f \<and> 0 < nbytes f \<and> complete f))"
proof
  show "fst (attempt e w u k mx s) = Return True \<longleftrightarrow>
      succeeds (io e (begun s)) \<and> hook_ok u (io e (begun s)) \<and>
      \<not> cancelled_before e (checks s + length (blocks (io e (begun s))) + 4)"
    by (rule attempt_exact)
next
  show "Finished True p m \<in> set (log (run e w init_state)) \<longrightarrow>
        (\<exists>f. dest (run e w init_state) = Some f \<and> 0 < nbytes f \<and> complete f)"
  proof
    assume "Finished True p m \<in> set (log (run e w init_state))"
    then have "Finished True p m \<in> set (finished_events (run e w init_state))"
      by (simp add: finished_events_def)
    then show "\<exists>f. dest (run e w init_state) = Some f \<and> 0 < nbytes f \<and> complete f"
      using run_settled[of e w init_state]
      by (auto simp: settled_def good_def silent_def fe_init split: if_splits)
  qed
qed

theorem attempt_succeeds_iff_witness:
  "fst (attempt (env_of None all_ok) sample_worker (url sample_worker) 1 3 init_state) = Return True
   \<and> (\<exists>f. dest (run (env_of None all_ok) sample_worker init_state) = Some f
            \<and> 0 < nbytes f \<and> complete f)"
proof -
  have a: "succeeds (io (env_of None all_ok) (begun init_state))"
    by (simp add: succeeds_def env_of_def all_ok_def ok_io_def)
  have b: "hook_ok (url sample_worker) (io (env_of None all_ok) (begun init_state))"
    by (simp add: hook_ok_def url_host_sample)
  have c: "\<not> cancelled_before (env_of None all_ok)
             (checks init_state + length (blocks (io (env_of None all_ok) (begun init_state))) + 4)"
    by (simp add: cancelled_before_def env_of_def)
  have d: "Finished True (filepath sample_worker) [] \<in> set (log (run (env_of None all_ok) sample_worker init_state))"
    by (simp add: run_def run_body_def try_download_def attempt_def prepare_def transfer_def
          urlretrieve_def report_progress_def finish_download_def is_cancelled_def emit_def
          mark_complete_def append_temp_def update_conv'
          env_of_def all_ok_def ok_io_def init_state_def sample_worker_def url_host_def Let_def
          upt_conv_Cons)
  note th = attempt_succeeds_iff[of "env_of None all_ok" sample_worker "url sample_worker" 1 3 init_state
            "filepath sample_worker" "[]"]
  from th a b c have 1: "fst (attempt (env_of None all_ok) sample_worker (url sample_worker) 1 3 init_state) = Return True"
    by blast
  from th d have 2: "\<exists>f. dest (run (env_of None all_ok) sample_worker init_state) = Some f
            \<and> 0 < nbytes f \<and> complete f"
    by blast
  from 1 2 show ?thesis by (rule conjI)
qed


section \<open>The order of attempts\<close>

text \<open>
  Claim C3: for a job that is not cancelled and whose URLs name a host (as every URL the
  program builds does), the attempts the code makes, in order and with their outcomes,
  are those of the specification's sequencing: the primary URL up to \<^verbatim>\<open>retry_count\<close> times,
  then each fallback URL once, stopping at the first success. In particular, when every
  attempt against the primary URL fails and the attempt against the first fallback URL
  succeeds, the run makes exactly \<^verbatim>\<open>retry_count\<close> failed attempts against the primary URL
  followed by exactly one successful attempt against that fallback, and nothing more.
\<close>

theorem attempt_order_refines_spec:
  assumes "cancel_after e = None" and "url_host (url w) \<noteq> None"
    and "list_all (\<lambda>f. url_host f \<noteq> None) (fallback_urls w)"
  shows "marks (run e w init_state) = spec_attempts (\<lambda>i. succeeds (io e i)) 0 (plan w)
     \<and> ((\<forall>i < nat (retry_count w). \<not> succeeds (io e i)) \<and> succeeds (io e (nat (retry_count w)))
          \<and> fallback_urls w = f # fs \<longrightarrow>
        marks (run e w init_state) =
          concat (map (\<lambda>k. [Try (url w) k, Fail]) [1 ..< Suc (nat (retry_count w))]) @ [Try f 1, Ok])"
proof -
  from assms(2) obtain h where host: "url_host (url w) = Some h" by auto
  have m: "marks (run e w init_state) = spec_attempts (\<lambda>i. succeeds (io e i)) 0 (plan w)"
    using run_nc[OF assms(1) host assms(3), of init_state] by (simp add: marks_def outline_def init_state_def)
  have "marks (run e w init_state) =
          concat (map (\<lambda>k. [Try (url w) k, Fail]) [1 ..< Suc (nat (retry_count w))]) @ [Try f 1, Ok]"
    if a: "\<forall>i < nat (retry_count w). \<not> succeeds (io e i)" and b: "succeeds (io e (nat (retry_count w)))"
      and c: "fallback_urls w = f # fs"
  proof -
    let ?ok = "\<lambda>i. succeeds (io e i)"
    let ?n = "nat (retry_count w)"
    define P where "P = map (\<lambda>k. (url w, k)) [1 ..< Suc ?n]"
    define F where "F = map (\<lambda>f. (f, 1::nat)) (fallback_urls w)"
    have lenP: "length P = ?n" by (simp add: P_def)
    have pl: "plan w = P @ F" by (simp add: plan_def P_def F_def)
    have nex: "(\<exists>j < ?n. ?ok (0 + j)) = False" using a by simp
    have "spec_attempts ?ok 0 (plan w) = spec_attempts ?ok 0 P @ spec_attempts ?ok (0 + ?n) F"
      by (simp only: pl spec_attempts_append lenP nex if_False)
    moreover have "spec_attempts ?ok 0 P = concat (map (\<lambda>k. [Try (url w) k, Fail]) [1 ..< Suc ?n])"
      unfolding P_def by (rule spec_attempts_all_fail) (use a in simp)
    moreover have "spec_attempts ?ok (0 + ?n) F = [Try f 1, Ok]" using b c by (simp add: F_def)
    ultimately show ?thesis using m by simp
  qed
  then show ?thesis using m by blast
qed

theorem attempt_order_refines_spec_witness:
  "marks (run (env_of None primary_fails_3) sample_worker init_state) =
     [Try ''https://sound-effects.bbcrewind.co.uk/assets/07076051.wav'' 1, Fail,
      Try ''https://sound-effects.bbcrewind.co.uk/assets/07076051.wav'' 2, Fail,
      Try ''https://sound-effects.bbcrewind.co.uk/assets/07076051.wav'' 3, Fail,
      Try ''https://sound-effects.bbcrewind.co.uk/07076051.wav'' 1, Ok]"
proof -
  have 1: "cancel_after (env_of None primary_fails_3) = None" by (simp add: env_of_def)
  have 2: "url_host (url sample_worker) \<noteq> None" by (simp add: url_host_sample)
  have 3: "\<forall>i < nat (retry_count sample_worker). \<not> succeeds (io (env_of None primary_fails_3) i)"
    by (simp add: sample_worker_def env_of_def primary_fails_3_def succeeds_def not_found_io_def)
  have 4: "succeeds (io (env_of None primary_fails_3) (nat (retry_count sample_worker)))"
    by (simp add: sample_worker_def env_of_def primary_fails_3_def succeeds_def ok_io_def)
  have 5: "fallback_urls sample_worker = ''https://sound-effects.bbcrewind.co.uk/07076051.wav'' #
             [''http://bbcsfx.acropolis.org.uk/assets/07076051.wav'']"
    by (simp add: sample_worker_def)
  have 6: "[1 ..< Suc (nat (retry_count sample_worker))] = [1, 2, 3]"
    by (simp add: sample_worker_def upt_conv_Cons)
  have 7: "url sample_worker = ''https://sound-effects.bbcrewind.co.uk/assets/07076051.wav''"
    by (simp add: sample_worker_def)
  from attempt_order_refines_spec[OF 1 2 hosts_sample] 3 4 5
  have "marks (run (env_of None primary_fails_3) sample_worker init_state) =
          concat (map (\<lambda>k. [Try (url sample_worker) k, Fail]) [1 ..< Suc (nat (retry_count sample_worker))])
            @ [Try ''https://sound-effects.bbcrewind.co.uk/07076051.wav'' 1, Ok]"
    by blast
  then show ?thesis unfolding 6 7 by simp
qed


section \<open>The failure report\<close>

text \<open>
  Where the text of a failure report comes from. When every attempt of a job that is
  not cancelled fails, the one \<^verbatim>\<open>finished\<close> signal carries the literal of line 186,
  whatever the errors were. When an exception leaves the body of \<^verbatim>\<open>run\<close>, the handler
  of lines 187-191 catches it and, unless the flag is set, reports it with its text.
\<close>

lemma all_failed_message_is_fixed:
  assumes "cancel_after e = None" and "url_host (url w) \<noteq> None"
    and "list_all (\<lambda>f. url_host f \<noteq> None) (fallback_urls w)"
    and "\<forall>i. \<not> succeeds (io e i)"
  shows "finished_events (run e w init_state)
           = [Finished False (filepath w) ''All download URLs failed'']"
proof -
  from assms(2) obtain h where host: "url_host (url w) = Some h" by auto
  show ?thesis using run_nc[OF assms(1) host assms(3), of init_state] assms(4)
    by (simp add: fe_init)
qed

lemma escaped_exception_is_reported:
  assumes "run_body e w s = (Some x, s1)"
  shows "finished_events (run e w s) =
           finished_events s1 @
             (if cancelled_before e (Suc (checks s1)) then []
              else [Finished False (filepath w) (''Thread error: '' @ x)])"
  using assms by (simp add: run_def is_cancelled_eq)

text \<open>
  Claim C5, at the input where the job has one URL and one attempt, nothing is cancelled,
  and the attempt fails with \<^verbatim>\<open>HTTP Error 404: Not Found\<close>: the handler of line 297 binds
  that text to \<^verbatim>\<open>error_msg\<close> (line 298), which is never read again, and the one
  \<^verbatim>\<open>finished\<close> signal of the run carries \<^verbatim>\<open>All download URLs failed\<close> instead of the
  last error encountered.
\<close>

theorem failure_message_drops_last_error:
  "finished_events (run (env_of None always_404) single_try_worker init_state)
     = [Finished False ''/home/u/BBCSounds/Birds/Robin.wav'' ''All download URLs failed'']
   \<and> last_error (log (run (env_of None always_404) single_try_worker init_state))
     = Some ''HTTP Error 404: Not Found''"
  by (simp add: run_def run_body_def try_download_def attempt_def prepare_def transfer_def
        urlretrieve_def handle_failure_def is_cancelled_def emit_def cleanup_temp_def
        finished_events_def env_of_def always_404_def not_found_io_def ok_io_def init_state_def
        single_try_worker_def sample_worker_def url_host_def Let_def upt_conv_Cons)


section \<open>Backoff\<close>

text \<open>
  Claim C8, with the clock in milliseconds advanced only by the sleeps. (1) In a run
  that is not cancelled and whose URLs name a host, the attempts and the slices slept
  are, in order, those of the specification's schedule: after a failed attempt number
  \<open>k\<close> the worker sleeps \<open>10 * 2 ^ k\<close> slices of 100 ms when the next attempt is
  attempt \<open>k + 1\<close> against the same URL, and it sleeps nowhere else, neither after the
  final attempt for a URL nor between different URLs. (2) In every run the clock has
  advanced by 100 ms per slice. (3) In every run each slice slept and each attempt begun
  comes after a read of the flag of its own that saw False: when read number \<open>c\<close> is
  the first to see the flag set, the whole run sleeps and begins at most \<open>c\<close> times, so
  nothing is slept and no attempt begins once the flag has been seen. (4) One attempt
  number \<open>k\<close> of \<open>mx\<close>, not cancelled, sleeps \<open>2 ^ k\<close> seconds exactly when it failed
  and \<open>k < mx\<close>. (5) When the flag is set during the backoff (the handler's own read
  still sees False, and read number \<open>c\<close> is the first to see True), the handler returns
  False at that read: it has slept only the slices that came before it, one per read
  that saw False. (6) An attempt that returns False ends the sequence of attempts.
\<close>

theorem backoff_between_failed_attempts:
  "(cancel_after e = None \<and> url_host (url w) \<noteq> None
      \<and> list_all (\<lambda>f. url_host f \<noteq> None) (fallback_urls w) \<longrightarrow>
      outline (run e w init_state) = spec_schedule (\<lambda>i. succeeds (io e i)) 0 (plan w))
   \<and> now (run e w init_state) = 100 * naps (run e w init_state)
   \<and> (cancel_after e = Some c \<longrightarrow>
        naps (run e w init_state) + begun (run e w init_state) \<le> c)
   \<and> (cancel_after e = None \<and> url_host u = Some h \<longrightarrow>
      now (snd (attempt e w u k mx s))
        = now s + (if \<not> succeeds (io e (begun s)) \<and> k < mx then 1000 * 2 ^ k else 0) \<and>
      naps (snd (attempt e w u k mx s))
        = naps s + (if \<not> succeeds (io e (begun s)) \<and> k < mx then 10 * 2 ^ k else 0))
   \<and> (url_host u = Some h \<and> k < mx \<and> cancel_after e = Some c \<and> checks s < c
        \<and> c \<le> checks s + 10 * 2 ^ k \<longrightarrow>
      fst (handle_failure e w u k mx x s) = Return False \<and>
      checks (snd (handle_failure e w u k mx x s)) = Suc c \<and>
      now (snd (handle_failure e w u k mx x s)) = now s + 100 * (c - Suc (checks s)) \<and>
      naps (snd (handle_failure e w u k mx x s)) = naps s + (c - Suc (checks s)))
   \<and> (fst (attempt e w u k mx s) = Return False \<longrightarrow>
      try_attempts e w u mx (k # ks) s = attempt e w u k mx s)"
proof (intro conjI impI)
  assume a: "cancel_after e = None \<and> url_host (url w) \<noteq> None
      \<and> list_all (\<lambda>f. url_host f \<noteq> None) (fallback_urls w)"
  then obtain h' where host: "url_host (url w) = Some h'" by auto
  show "outline (run e w init_state) = spec_schedule (\<lambda>i. succeeds (io e i)) 0 (plan w)"
    using run_ol[OF _ host, of e init_state] a by (simp add: outline_def init_state_def)
next
  show "now (run e w init_state) = 100 * naps (run e w init_state)" by (rule run_clock)
next
  assume "cancel_after e = Some c"
  then show "naps (run e w init_state) + begun (run e w init_state) \<le> c" by (rule run_after_cancel)
next
  assume a: "cancel_after e = None \<and> url_host u = Some h"
  obtain r s' where at: "attempt e w u k mx s = (r, s')" by force
  note an = attempt_nc[OF conjunct1[OF a] conjunct2[OF a] at]
  show "now (snd (attempt e w u k mx s))
        = now s + (if \<not> succeeds (io e (begun s)) \<and> k < mx then 1000 * 2 ^ k else 0)"
    using an at by (auto split: if_splits)
  show "naps (snd (attempt e w u k mx s))
        = naps s + (if \<not> succeeds (io e (begun s)) \<and> k < mx then 10 * 2 ^ k else 0)"
    using an at by (auto simp: naps_outline split: if_splits)
next
  assume b: "url_host u = Some h \<and> k < mx \<and> cancel_after e = Some c \<and> checks s < c
        \<and> c \<le> checks s + 10 * 2 ^ k"
  obtain r s' where hf: "handle_failure e w u k mx x s = (r, s')" by force
  have hc: "r = Return False \<and> checks s' = Suc c \<and> now s' = now s + 100 * (c - Suc (checks s)) \<and>
         outline s' = outline s @ Fail # replicate (c - Suc (checks s)) Nap"
    using handle_failure_cancelled_in_backoff[OF _ _ _ _ _ hf, of h c] b by blast
  show "fst (handle_failure e w u k mx x s) = Return False" using hc hf by simp
  show "checks (snd (handle_failure e w u k mx x s)) = Suc c" using hc hf by simp
  show "now (snd (handle_failure e w u k mx x s)) = now s + 100 * (c - Suc (checks s))" using hc hf by simp
  show "naps (snd (handle_failure e w u k mx x s)) = naps s + (c - Suc (checks s))"
    using hc hf by (simp add: naps_outline)
next
  assume "fst (attempt e w u k mx s) = Return False"
  then show "try_attempts e w u mx (k # ks) s = attempt e w u k mx s"
    by (cases "attempt e w u k mx s") simp
qed

theorem backoff_between_failed_attempts_witness:
  "outline (run (env_of None primary_fails_3) sample_worker init_state) =
     Try ''https://sound-effects.bbcrewind.co.uk/assets/07076051.wav'' 1 # Fail # replicate 20 Nap @
     Try ''https://sound-effects.bbcrewind.co.uk/assets/07076051.wav'' 2 # Fail # replicate 40 Nap @
     [Try ''https://sound-effects.bbcrewind.co.uk/assets/07076051.wav'' 3, Fail,
      Try ''https://sound-effects.bbcrewind.co.uk/07076051.wav'' 1, Ok]
   \<and> now (run (env_of None primary_fails_3) sample_worker init_state) = 6000
   \<and> naps (run (env_of (Some 9) always_404) sample_worker init_state)
       + begun (run (env_of (Some 9) always_404) sample_worker init_state) \<le> 9
   \<and> now (snd (attempt (env_of None always_404) sample_worker (url sample_worker) 1 3 init_state)) = 2000
   \<and> naps (snd (attempt (env_of None always_404) sample_worker (url sample_worker) 1 3 init_state)) = 20
   \<and> now (snd (attempt (env_of None always_404) sample_worker (url sample_worker) 3 3 init_state)) = 0
   \<and> fst (handle_failure (env_of (Some 5) always_404) sample_worker (url sample_worker) 1 3
            ''HTTP Error 404: Not Found'' init_state) = Return False
   \<and> now (snd (handle_failure (env_of (Some 5) always_404) sample_worker (url sample_worker) 1 3
            ''HTTP Error 404: Not Found'' init_state)) = 400
   \<and> try_attempts (env_of (Some 0) always_404) sample_worker (url sample_worker) 3 [1, 2, 3] init_state
       = attempt (env_of (Some 0) always_404) sample_worker (url sample_worker) 1 3 init_state"
proof -
  have nc: "cancel_after (env_of None always_404) = None" by (simp add: env_of_def)
  have nc3: "cancel_after (env_of None primary_fails_3) = None" by (simp add: env_of_def)
  have nf: "\<not> succeeds (io (env_of None always_404) (begun init_state))"
    by (simp add: env_of_def always_404_def succeeds_def not_found_io_def)
  have i0: "now init_state = 0" "naps init_state = 0" "checks init_state = 0"
    by (simp_all add: init_state_def naps_def)
  note R = backoff_between_failed_attempts[of "env_of None primary_fails_3" sample_worker 0 "url sample_worker"
      "''sound-effects.bbcrewind.co.uk''" 1 3 init_state "[]" "[]"]
  note S = backoff_between_failed_attempts[of "env_of (Some 9) always_404" sample_worker 9 "url sample_worker"
      "''sound-effects.bbcrewind.co.uk''" 1 3 init_state "[]" "[]"]
  note A = backoff_between_failed_attempts[of "env_of None always_404" sample_worker 0 "url sample_worker"
      "''sound-effects.bbcrewind.co.uk''" 1 3 init_state "[]" "[]"]
  note B = backoff_between_failed_attempts[of "env_of None always_404" sample_worker 0 "url sample_worker"
      "''sound-effects.bbcrewind.co.uk''" 3 3 init_state "[]" "[]"]
  note C = backoff_between_failed_attempts[of "env_of (Some 5) always_404" sample_worker 5 "url sample_worker"
      "''sound-effects.bbcrewind.co.uk''" 1 3 init_state "''HTTP Error 404: Not Found''" "[]"]
  note D = backoff_between_failed_attempts[of "env_of (Some 0) always_404" sample_worker 0 "url sample_worker"
      "''sound-effects.bbcrewind.co.uk''" 1 3 init_state "[]" "[2, 3]"]
  have h2: "url_host (url sample_worker) \<noteq> None" by (simp add: url_host_sample)
  have pl: "plan sample_worker =
     [(''https://sound-effects.bbcrewind.co.uk/assets/07076051.wav'', 1),
      (''https://sound-effects.bbcrewind.co.uk/assets/07076051.wav'', 2),
      (''https://sound-effects.bbcrewind.co.uk/assets/07076051.wav'', 3),
      (''https://sound-effects.bbcrewind.co.uk/07076051.wav'', 1),
      (''http://bbcsfx.acropolis.org.uk/assets/07076051.wav'', 1)]"
    by (simp add: plan_def sample_worker_def upt_conv_Cons)
  have ok: "succeeds (io (env_of None primary_fails_3) i) = (\<not> i < 3)" for i
    by (simp add: env_of_def primary_fails_3_def succeeds_def not_found_io_def ok_io_def)
  have sp: "spec_schedule (\<lambda>i. succeeds (io (env_of None primary_fails_3) i)) 0 (plan sample_worker) =
     Try ''https://sound-effects.bbcrewind.co.uk/assets/07076051.wav'' 1 # Fail # replicate 20 Nap @
     Try ''https://sound-effects.bbcrewind.co.uk/assets/07076051.wav'' 2 # Fail # replicate 40 Nap @
     [Try ''https://sound-effects.bbcrewind.co.uk/assets/07076051.wav'' 3, Fail,
      Try ''https://sound-effects.bbcrewind.co.uk/07076051.wav'' 1, Ok]"
    unfolding pl ok by (simp add: eval_nat_numeral)
  have r1: "outline (run (env_of None primary_fails_3) sample_worker init_state) =
     Try ''https://sound-effects.bbcrewind.co.uk/assets/07076051.wav'' 1 # Fail # replicate 20 Nap @
     Try ''https://sound-effects.bbcrewind.co.uk/assets/07076051.wav'' 2 # Fail # replicate 40 Nap @
     [Try ''https://sound-effects.bbcrewind.co.uk/assets/07076051.wav'' 3, Fail,
      Try ''https://sound-effects.bbcrewind.co.uk/07076051.wav'' 1, Ok]"
    using R nc3 h2 hosts_sample unfolding sp by blast
  have n1: "naps (run (env_of None primary_fails_3) sample_worker init_state) = 60"
    unfolding naps_outline r1 by simp
  have r2: "now (run (env_of None primary_fails_3) sample_worker init_state) = 6000"
    using R n1 by simp
  have c9: "cancel_after (env_of (Some 9) always_404) = Some 9" by (simp add: env_of_def)
  have r3: "naps (run (env_of (Some 9) always_404) sample_worker init_state)
       + begun (run (env_of (Some 9) always_404) sample_worker init_state) \<le> 9"
    using S c9 by blast
  have a: "now (snd (attempt (env_of None always_404) sample_worker (url sample_worker) 1 3 init_state)) = 2000"
     "naps (snd (attempt (env_of None always_404) sample_worker (url sample_worker) 1 3 init_state)) = 20"
    using A nc nf url_host_sample i0 by simp_all
  have b: "now (snd (attempt (env_of None always_404) sample_worker (url sample_worker) 3 3 init_state)) = 0"
    using B nc nf url_host_sample i0 by simp
  have c5: "cancel_after (env_of (Some 5) always_404) = Some 5" by (simp add: env_of_def)
  have c: "fst (handle_failure (env_of (Some 5) always_404) sample_worker (url sample_worker) 1 3
            ''HTTP Error 404: Not Found'' init_state) = Return False"
     "now (snd (handle_failure (env_of (Some 5) always_404) sample_worker (url sample_worker) 1 3
            ''HTTP Error 404: Not Found'' init_state)) = 400"
    using C c5 url_host_sample i0 by simp_all
  have d0: "fst (attempt (env_of (Some 0) always_404) sample_worker (url sample_worker) 1 3 init_state) = Return False"
    by (simp add: attempt_def is_cancelled_def env_of_def init_state_def)
  have d: "try_attempts (env_of (Some 0) always_404) sample_worker (url sample_worker) 3 [1, 2, 3] init_state
       = attempt (env_of (Some 0) always_404) sample_worker (url sample_worker) 1 3 init_state"
    using D d0 by blast
  show ?thesis using r1 r2 r3 a b c d by blast
qed

section \<open>Permissions of the destination file\<close>

text \<open>
  Claim C10: whatever \<^verbatim>\<open>os.chmod\<close> on the destination file answers in each attempt
  (it returns, or it raises), and whether the step is skipped (\<^verbatim>\<open>IS_WINDOWS\<close>) or not,
  the result of every attempt, the file at the destination and the signals emitted are
  the same, for one attempt and for the whole run; the only difference is the warning
  printed. In particular an attempt that is not cancelled and in which every other call
  returns and the transfer delivers at least one byte returns True, leaves a complete,
  non-empty file at the destination, and emits the \<^verbatim>\<open>finished\<close> signal of a success.
\<close>

theorem chmod_failure_keeps_outcome:
  "fst (attempt (chmod_outcome x win e) w u k mx s) = fst (attempt e w u k mx s)
   \<and> dest (snd (attempt (chmod_outcome x win e) w u k mx s)) = dest (snd (attempt e w u k mx s))
   \<and> log (snd (attempt (chmod_outcome x win e) w u k mx s)) = log (snd (attempt e w u k mx s))
   \<and> dest (run (chmod_outcome x win e) w s) = dest (run e w s)
   \<and> log (run (chmod_outcome x win e) w s) = log (run e w s)
   \<and> temps (run (chmod_outcome x win e) w s) = temps (run e w s)
   \<and> (cancel_after e = None \<and> url_host u = Some h \<and> succeeds (io e (begun s)) \<longrightarrow>
        fst (attempt (chmod_outcome x win e) w u k mx s) = Return True \<and>
        (\<exists>f. dest (snd (attempt (chmod_outcome x win e) w u k mx s)) = Some f
               \<and> 0 < nbytes f \<and> complete f) \<and>
        finished_events (snd (attempt (chmod_outcome x win e) w u k mx s))
          = finished_events s @ [Finished True (filepath w) ''''])"
proof -
  let ?e' = "chmod_outcome x win e"
  obtain r s1 where at: "attempt e w u k mx s = (r, s1)" by force
  obtain r' s1' where at': "attempt ?e' w u k mx s = (r', s1')" by force
  have ag: "r' = r \<and> erase s1' = erase s1"
    using co_attempt[of x win e w u k mx s] at at' by (simp add: agree_def)
  note f1 = erase_fields[of s1' s1]
  note f2 = erase_fields[OF co_run[of x win e w s]]
  have a: "fst (attempt ?e' w u k mx s) = fst (attempt e w u k mx s)" using ag at at' by simp
  have b: "dest (snd (attempt ?e' w u k mx s)) = dest (snd (attempt e w u k mx s))"
    using ag at at' f1 by simp
  have c: "log (snd (attempt ?e' w u k mx s)) = log (snd (attempt e w u k mx s))"
    using ag at at' f1 by simp
  have d: "cancel_after e = None \<and> url_host u = Some h \<and> succeeds (io e (begun s)) \<longrightarrow>
        fst (attempt ?e' w u k mx s) = Return True \<and>
        (\<exists>f. dest (snd (attempt ?e' w u k mx s)) = Some f \<and> 0 < nbytes f \<and> complete f) \<and>
        finished_events (snd (attempt ?e' w u k mx s))
          = finished_events s @ [Finished True (filepath w) '''']"
  proof
    assume h: "cancel_after e = None \<and> url_host u = Some h \<and> succeeds (io e (begun s))"
    then have nc: "cancel_after e = None" and host: "url_host u = Some h" by simp_all
    have rt: "r = Return True" using attempt_nc[OF nc host at] h by simp
    then have g: "good e w s s1" using attempt_fin[OF at] by simp
    have fe: "finished_events s1 = finished_events s @ [Finished True (filepath w) '''']"
      using g nc_not_seen[OF nc] by (simp add: good_def)
    have fe': "finished_events s1' = finished_events s1" using ag f1 by (simp add: finished_events_def)
    have de: "\<exists>f. dest s1 = Some f \<and> 0 < nbytes f \<and> complete f" using g by (simp add: good_def)
    show "fst (attempt ?e' w u k mx s) = Return True \<and>
        (\<exists>f. dest (snd (attempt ?e' w u k mx s)) = Some f \<and> 0 < nbytes f \<and> complete f) \<and>
        finished_events (snd (attempt ?e' w u k mx s))
          = finished_events s @ [Finished True (filepath w) '''']"
      using rt ag at' fe fe' de f1 by simp
  qed
  show ?thesis using a b c d f2 by blast
qed

theorem chmod_failure_keeps_outcome_witness:
  "fst (attempt (chmod_outcome chmod_denied False (env_of None all_ok)) sample_worker
          (url sample_worker) 1 3 init_state) = Return True
   \<and> (\<exists>f. dest (snd (attempt (chmod_outcome chmod_denied False (env_of None all_ok)) sample_worker
                         (url sample_worker) 1 3 init_state)) = Some f \<and> 0 < nbytes f \<and> complete f)
   \<and> finished_events (snd (attempt (chmod_outcome chmod_denied False (env_of None all_ok)) sample_worker
          (url sample_worker) 1 3 init_state))
       = [Finished True ''/home/u/BBCSounds/Birds/Robin.wav'' '''']
   \<and> warnings (snd (attempt (chmod_outcome chmod_denied False (env_of None all_ok)) sample_worker
          (url sample_worker) 1 3 init_state))
       = [''Warning: Failed to set file permissions: [Errno 1] Operation not permitted'']"
proof -
  have 1: "cancel_after (env_of None all_ok) = None" by (simp add: env_of_def)
  have 2: "url_host (url sample_worker) = Some ''sound-effects.bbcrewind.co.uk''"
    by (simp add: url_host_sample)
  have 3: "succeeds (io (env_of None all_ok) (begun init_state))"
    by (simp add: succeeds_def env_of_def all_ok_def ok_io_def)
  have 4: "warnings (snd (attempt (chmod_outcome chmod_denied False (env_of None all_ok)) sample_worker
          (url sample_worker) 1 3 init_state))
       = [''Warning: Failed to set file permissions: [Errno 1] Operation not permitted'']"
    by (simp add: attempt_def prepare_def transfer_def
          urlretrieve_def report_progress_def finish_download_def is_cancelled_def emit_def warn_def
          mark_complete_def append_temp_def update_conv' chmod_outcome_def chmod_denied_def
          env_of_def all_ok_def ok_io_def init_state_def sample_worker_def url_host_def Let_def)
  note th = chmod_failure_keeps_outcome[of chmod_denied False "env_of None all_ok" sample_worker
      "url sample_worker" 1 3 init_state "''sound-effects.bbcrewind.co.uk''"]
  from th 1 2 3 have "fst (attempt (chmod_outcome chmod_denied False (env_of None all_ok)) sample_worker
          (url sample_worker) 1 3 init_state) = Return True \<and>
      (\<exists>f. dest (snd (attempt (chmod_outcome chmod_denied False (env_of None all_ok)) sample_worker
                         (url sample_worker) 1 3 init_state)) = Some f \<and> 0 < nbytes f \<and> complete f) \<and>
      finished_events (snd (attempt (chmod_outcome chmod_denied False (env_of None all_ok)) sample_worker
          (url sample_worker) 1 3 init_state))
        = finished_events init_state @ [Finished True (filepath sample_worker) '''']"
    by blast
  then show ?thesis using 4 by (simp add: fe_init sample_worker_def)
qed

section \<open>Admission\<close>



section \<open>The session counters\<close>




section \<open>Starting a run\<close>





end
